theory Spec2Isabelle
  imports Complex_Main
begin

section \<open>Python string operations used by the script\<close>

text \<open>
  File names are modelled as ASCII strings.  \<open>startswith s p\<close> is \<open>s.startswith(p)\<close>,
  \<open>str_contains s sub\<close> is the operator \<open>sub in s\<close> on strings.
\<close>

fun startswith :: "string \<Rightarrow> string \<Rightarrow> bool" where
  "startswith s [] = True"
| "startswith [] (c # p) = False"
| "startswith (d # s) (c # p) = (d = c \<and> startswith s p)"

fun str_contains :: "string \<Rightarrow> string \<Rightarrow> bool" where
  "str_contains [] sub = (sub = [])"
| "str_contains (c # s) sub = (startswith (c # s) sub \<or> str_contains s sub)"

definition endswith :: "string \<Rightarrow> string \<Rightarrow> bool" where
  "endswith s p = startswith (rev s) (rev p)"

definition removeprefix :: "string \<Rightarrow> string \<Rightarrow> string" where
  "removeprefix s p = (if startswith s p then drop (length p) s else s)"

definition removesuffix :: "string \<Rightarrow> string \<Rightarrow> string" where
  "removesuffix s p =
     (if p \<noteq> [] \<and> endswith s p then take (length s - length p) s else s)"

text \<open>
  \<open>s.rpartition(sep)\<close> for a one-character separator: the split at the last occurrence,
  and \<open>('', '', s)\<close> when the separator does not occur.
\<close>

definition rpartition :: "string \<Rightarrow> char \<Rightarrow> string \<times> string \<times> string" where
  "rpartition s sep =
     (let after = rev (takeWhile (\<lambda>c. c \<noteq> sep) (rev s))
      in if sep \<in> set s then (take (length s - length after - 1) s, [sep], after)
         else ([], [], s))"

subsection \<open>Decimal conversion: \<open>str\<close> and \<open>int\<close>\<close>

definition digit_char :: "nat \<Rightarrow> char" where
  "digit_char d = ''0123456789'' ! d"

fun digits :: "nat \<Rightarrow> string" where
  "digits n = (if n < 10 then [digit_char n] else digits (n div 10) @ [digit_char (n mod 10)])"

declare digits.simps [simp del]

definition py_str :: "int \<Rightarrow> string" where
  "py_str i = (if i < 0 then CHR ''-'' # digits (nat (- i)) else digits (nat i))"

definition is_digit :: "char \<Rightarrow> bool" where
  "is_digit c = (c \<in> set ''0123456789'')"

definition digit_val :: "char \<Rightarrow> int" where
  "digit_val c = int (of_char c) - 48"

text \<open>
  The characters that \<open>int\<close> strips from both ends of an ASCII string: codes 9 to 13
  and 32.
\<close>

definition is_space :: "char \<Rightarrow> bool" where
  "is_space c = (let k = (of_char c :: nat) in (9 \<le> k \<and> k \<le> 13) \<or> k = 32)"

definition strip :: "string \<Rightarrow> string" where
  "strip s = rev (dropWhile is_space (rev (dropWhile is_space s)))"

text \<open>
  The digit part of an integer literal: digits, with single underscores allowed between
  two digits.
\<close>

fun digit_groups :: "string \<Rightarrow> bool" where
  "digit_groups [] = False"
| "digit_groups [c] = is_digit c"
| "digit_groups (c # d # s) =
     (is_digit c \<and> (if d = CHR ''_'' then digit_groups s else digit_groups (d # s)))"

definition digits_value :: "string \<Rightarrow> int" where
  "digits_value s = foldl (\<lambda>acc c. acc * 10 + digit_val c) 0 (filter is_digit s)"

text \<open>\<open>int(s)\<close> in base ten; \<open>None\<close> stands for the \<open>ValueError\<close> it raises.\<close>

definition py_int :: "string \<Rightarrow> int option" where
  "py_int s =
     (case strip s of
        [] \<Rightarrow> None
      | c # r \<Rightarrow>
          (let body = (if c = CHR ''-'' \<or> c = CHR ''+'' then r else c # r)
           in if digit_groups body
              then Some (if c = CHR ''-'' then - digits_value body else digits_value body)
              else None))"

section \<open>Backup names\<close>

definition SUFFIX_SEPARATOR :: char where
  "SUFFIX_SEPARATOR = CHR ''_''"

definition SUFFIX_BEGIN :: string where
  "SUFFIX_BEGIN = ''bak''"

text \<open>
  The f-string \<open>{latest_save}{SUFFIX_SEPARATOR}{SUFFIX_BEGIN}{backup_num}{suffix_extension}\<close>.
\<close>

definition backup_name :: "string \<Rightarrow> int \<Rightarrow> string \<Rightarrow> string" where
  "backup_name latest_save backup_num suffix_extension =
     latest_save @ [SUFFIX_SEPARATOR] @ SUFFIX_BEGIN @ py_str backup_num @ suffix_extension"

text \<open>
  The test \<open>latest_save in backup\<close>, by which both the numbering scan and the eviction
  scan decide that a folder entry is a backup of the active save.
\<close>

definition belongs :: "string \<Rightarrow> string \<Rightarrow> bool" where
  "belongs latest_save backup = str_contains backup latest_save"

section \<open>Failures\<close>

text \<open>
  Exceptions the script does not catch end the run with a traceback; the reported
  failures are the messages followed by \<open>sys.exit(1)\<close>.
\<close>

datatype exn =
    PermissionError
  | NotADirectoryError
  | FileNotFoundError
  | FileExistsError
  | ValueError
  | DirectoryNotEmpty

datatype failure =
    AccessDenied         \<comment> \<open>ERROR: Do not have permissions to access save directory!\<close>
  | NoSavesFound         \<comment> \<open>ERROR: No saves found!\<close>
  | BackupDirDenied      \<comment> \<open>ERROR: Do not have permissions to create backup directory!\<close>
  | WriteDirDenied       \<comment> \<open>ERROR: Do not have permissions to write directory to backup!\<close>
  | CopyDenied           \<comment> \<open>ERROR: Do not have permissions to copy save directory!\<close>
  | SaveRemoved          \<comment> \<open>ERROR: Save renamed or deleted during sleep!\<close>
  | Unhandled exn

section \<open>The numbering scan\<close>

text \<open>
  The loop over \<open>os.listdir(BACKUP_PATH)\<close> that runs once, before the backup loop.  The
  accumulator is \<open>(backup_num, total_num)\<close>.  At that point \<open>suffix_extension\<close> is
  \<open>.zip\<close> whatever the compression method.
\<close>

definition parse_number :: "string \<Rightarrow> int option" where
  "parse_number backup =
     (case rpartition backup SUFFIX_SEPARATOR of
        (before, sep, after) \<Rightarrow>
          py_int (removesuffix (removeprefix after SUFFIX_BEGIN) ''.zip''))"

fun numbering_scan :: "string \<Rightarrow> string list \<Rightarrow> int \<times> int \<Rightarrow> failure + int \<times> int" where
  "numbering_scan latest_save [] acc = Inr acc"
| "numbering_scan latest_save (backup # rest) (backup_num, total_num) =
     (if belongs latest_save backup then
        (case parse_number backup of
           None \<Rightarrow> Inl (Unhandled ValueError)
         | Some k \<Rightarrow>
             numbering_scan latest_save rest
               (if k \<ge> backup_num then k + 1 else backup_num, total_num + 1))
      else numbering_scan latest_save rest (backup_num, total_num))"

section \<open>Configuration\<close>

text \<open>
  The script constants read from the command line.  \<open>METHOD\<close> is \<open>None\<close> for
  \<open>NONE\<close> and the \<open>zipfile\<close> constant otherwise (\<open>ZIP_STORED = 0\<close>,
  \<open>ZIP_DEFLATED = 8\<close>, \<open>ZIP_BZIP2 = 12\<close>, \<open>ZIP_LZMA = 14\<close>); \<open>truthy\<close> is its
  truth value in \<open>if METHOD\<close>.  \<open>LIMIT\<close> is never negative: the script exits on a
  negative \<open>--number\<close>.
\<close>

record config =
  FOLDER_NAME :: string
  METHOD :: "int option"
  LIMIT :: int

definition truthy :: "int option \<Rightarrow> bool" where
  "truthy m = (case m of None \<Rightarrow> False | Some k \<Rightarrow> k \<noteq> 0)"

section \<open>Choosing the save\<close>

text \<open>
  \<open>os.listdir\<close> either lists a directory or raises, and \<open>os.path.getmtime\<close> either
  returns the modification time of a path or raises.  A playstyle is listed as its
  children, each with what \<open>os.path.getmtime\<close> does on it, in listing order.
\<close>

datatype 'a listdir = Listed 'a | Raises exn

datatype mtime = Mtime real | MtimeRaises exn

type_synonym playstyle_dir = "(string \<times> mtime) list listdir"

type_synonym save_root = "(string \<times> playstyle_dir) list listdir"

text \<open>
  The inner loop; the accumulator is \<open>(latest_playstyle, latest_save, latest_modified)\<close>.
  The modification time is read only for a child that is not the backup folder, and
  reading it is not guarded by a \<open>try\<close>.
\<close>

fun scan_saves ::
  "string \<Rightarrow> string \<Rightarrow> (string \<times> mtime) list \<Rightarrow> string \<times> string \<times> real
     \<Rightarrow> failure + string \<times> string \<times> real" where
  "scan_saves folder playstyle [] acc = Inr acc"
| "scan_saves folder playstyle ((save, m) # rest)
     (latest_playstyle, latest_save, latest_modified) =
     (if save = folder
      then scan_saves folder playstyle rest (latest_playstyle, latest_save, latest_modified)
      else
        (case m of
           MtimeRaises e \<Rightarrow> Inl (Unhandled e)
         | Mtime modified_time \<Rightarrow>
             if modified_time > latest_modified
             then scan_saves folder playstyle rest (playstyle, save, modified_time)
             else scan_saves folder playstyle rest
                    (latest_playstyle, latest_save, latest_modified)))"

text \<open>The outer loop; listing a playstyle is not guarded by a \<open>try\<close>.\<close>

fun scan_playstyles ::
  "string \<Rightarrow> (string \<times> playstyle_dir) list \<Rightarrow> string \<times> string \<times> real
     \<Rightarrow> failure + string \<times> string \<times> real" where
  "scan_playstyles folder [] acc = Inr acc"
| "scan_playstyles folder ((playstyle, d) # rest) acc =
     (case d of
        Raises e \<Rightarrow> Inl (Unhandled e)
      | Listed saves \<Rightarrow>
          (case scan_saves folder playstyle saves acc of
             Inl f \<Rightarrow> Inl f
           | Inr acc' \<Rightarrow> scan_playstyles folder rest acc'))"

definition locate :: "string \<Rightarrow> save_root \<Rightarrow> failure + string \<times> string \<times> real" where
  "locate folder save_root_dir =
     (case save_root_dir of
        Raises e \<Rightarrow> (if e = PermissionError then Inl AccessDenied else Inl (Unhandled e))
      | Listed playstyles \<Rightarrow>
          (case playstyles of
             [] \<Rightarrow> Inl NoSavesFound
           | (p0, d0) # rest \<Rightarrow>
               (case scan_playstyles folder playstyles (p0, [], 0) of
                  Inl f \<Rightarrow> Inl f
                | Inr (latest_playstyle, latest_save, latest_modified) \<Rightarrow>
                    if latest_save = [] then Inl NoSavesFound
                    else Inr (latest_playstyle, latest_save, latest_modified))))"

text \<open>
  For stating what \<open>locate\<close> returns.  \<open>eligible\<close> lists the children of one playstyle
  other than the backup folder whose time can be read, as \<open>(playstyle, save, time)\<close>;
  \<open>candidates\<close> does so for all listable playstyles, in the order in which the two loops
  visit them.  \<open>first_raise\<close> is the first exception the two loops meet in that order:
  from listing a playstyle, or from reading the time of a child that is not the backup
  folder.  \<open>pick\<close> is the comparison of the inner loop run over a list of candidates.
\<close>

fun eligible :: "string \<Rightarrow> string \<Rightarrow> (string \<times> mtime) list \<Rightarrow> (string \<times> string \<times> real) list" where
  "eligible fname playstyle [] = []"
| "eligible fname playstyle ((save, Mtime t) # rest) =
     (if save = fname then eligible fname playstyle rest
      else (playstyle, save, t) # eligible fname playstyle rest)"
| "eligible fname playstyle ((save, MtimeRaises e) # rest) = eligible fname playstyle rest"

fun candidates :: "string \<Rightarrow> (string \<times> playstyle_dir) list \<Rightarrow> (string \<times> string \<times> real) list" where
  "candidates fname [] = []"
| "candidates fname ((playstyle, Listed saves) # rest) =
     eligible fname playstyle saves @ candidates fname rest"
| "candidates fname ((playstyle, Raises e) # rest) = candidates fname rest"

fun first_mtime_raise :: "string \<Rightarrow> (string \<times> mtime) list \<Rightarrow> exn option" where
  "first_mtime_raise fname [] = None"
| "first_mtime_raise fname ((save, Mtime t) # rest) = first_mtime_raise fname rest"
| "first_mtime_raise fname ((save, MtimeRaises e) # rest) =
     (if save = fname then first_mtime_raise fname rest else Some e)"

fun first_raise :: "string \<Rightarrow> (string \<times> playstyle_dir) list \<Rightarrow> exn option" where
  "first_raise fname [] = None"
| "first_raise fname ((playstyle, Listed saves) # rest) =
     (case first_mtime_raise fname saves of
        Some e \<Rightarrow> Some e
      | None \<Rightarrow> first_raise fname rest)"
| "first_raise fname ((playstyle, Raises e) # rest) = Some e"

fun pick :: "(string \<times> string \<times> real) list \<Rightarrow> string \<times> string \<times> real \<Rightarrow> string \<times> string \<times> real" where
  "pick [] acc = acc"
| "pick ((p, s, t) # cs) (lp, ls, lm) =
     (if t > lm then pick cs (p, s, t) else pick cs (lp, ls, lm))"

section \<open>The backup folder\<close>

text \<open>
  An entry of the backup folder is a regular file (a zip archive) or a directory (a plain
  copy) with the names of its children.  \<open>elocked\<close> says that deleting the entry is
  denied (\<open>os.remove\<close> and \<open>os.rmdir\<close> raise \<open>PermissionError\<close>).  The folder records
  whether it exists, whether removing the folder itself is denied, and its listing in
  \<open>os.listdir\<close> order; the names of a listing are distinct.
\<close>

datatype node = File | Dir "string list"

record entry =
  ename :: string
  emtime :: real
  enode :: node
  elocked :: bool

record bfolder =
  present :: bool
  protected :: bool
  entries :: "entry list"

definition lookup :: "bfolder \<Rightarrow> string \<Rightarrow> entry option" where
  "lookup fs nm = (if present fs then find (\<lambda>e. ename e = nm) (entries fs) else None)"

definition isfile :: "bfolder \<Rightarrow> string \<Rightarrow> bool" where
  "isfile fs nm = (case lookup fs nm of None \<Rightarrow> False | Some e \<Rightarrow> enode e = File)"

definition remove_entry :: "bfolder \<Rightarrow> string \<Rightarrow> bfolder" where
  "remove_entry fs nm = fs\<lparr>entries := filter (\<lambda>e. ename e \<noteq> nm) (entries fs)\<rparr>"

text \<open>What the script prints, as far as the eviction and archiving steps are concerned.\<close>

datatype event =
    LimitReached string   \<comment> \<open>Backup limit reached, deleting ...\<close>
  | DeleteDenied          \<comment> \<open>ERROR: Do not have permissions to delete backup\<close>
  | Creating string       \<comment> \<open>Creating backup ...\<close>
  | Done                  \<comment> \<open>DONE\<close>

section \<open>Eviction\<close>

text \<open>
  The \<open>for\<close> loop that selects the eviction candidate; the accumulator is
  \<open>(earliest_backup, earliest_mod)\<close>, and \<open>not earliest_mod\<close> is \<open>earliest_mod = 0\<close>.
\<close>

fun select_earliest :: "string \<Rightarrow> entry list \<Rightarrow> string \<times> real \<Rightarrow> string \<times> real" where
  "select_earliest latest_save [] acc = acc"
| "select_earliest latest_save (backup # rest) (earliest_backup, earliest_mod) =
     (if belongs latest_save (ename backup) then
        (if earliest_mod = 0 \<or> emtime backup < earliest_mod
         then select_earliest latest_save rest (ename backup, emtime backup)
         else select_earliest latest_save rest (earliest_backup, earliest_mod))
      else select_earliest latest_save rest (earliest_backup, earliest_mod))"



text \<open>
  The body of the \<open>try\<close>: \<open>os.remove\<close> when the path is a regular file, \<open>os.rmdir\<close>
  otherwise.  With no candidate the name is empty and the path is the backup folder
  itself.  \<open>os.rmdir\<close> removes empty directories only.
\<close>

definition delete_backup :: "bfolder \<Rightarrow> string \<Rightarrow> exn + bfolder" where
  "delete_backup fs earliest_backup =
     (if earliest_backup = [] then
        (if protected fs then Inl PermissionError
         else if entries fs \<noteq> [] then Inl DirectoryNotEmpty
         else Inr (fs\<lparr>present := False\<rparr>))
      else
        (case lookup fs earliest_backup of
           None \<Rightarrow> Inl FileNotFoundError
         | Some e \<Rightarrow>
             if elocked e then Inl PermissionError
             else (case enode e of
                     File \<Rightarrow> Inr (remove_entry fs earliest_backup)
                   | Dir children \<Rightarrow>
                       if children \<noteq> [] then Inl DirectoryNotEmpty
                       else Inr (remove_entry fs earliest_backup))))"

text \<open>One iteration of the \<open>while total_num >= LIMIT\<close> loop, up to the decrement.\<close>

definition evict_once :: "string \<Rightarrow> bfolder \<Rightarrow> event list \<times> (failure + bfolder)" where
  "evict_once latest_save fs =
     (if \<not> present fs then ([], Inl (Unhandled FileNotFoundError))
      else
        (case select_earliest latest_save (entries fs) ([], 0) of
           (earliest_backup, earliest_mod) \<Rightarrow>
             (case delete_backup fs earliest_backup of
                Inr fs' \<Rightarrow> ([LimitReached earliest_backup], Inr fs')
              | Inl e \<Rightarrow>
                  if e = PermissionError
                  then ([LimitReached earliest_backup, DeleteDenied], Inr fs)
                  else ([LimitReached earliest_backup], Inl (Unhandled e)))))"

text \<open>
  The \<open>while total_num >= LIMIT\<close> loop.  The result lists what each started iteration
  printed, one element per iteration, and either the failure that ended the run or the
  folder and \<open>total_num\<close> after the loop.  The decrement is outside the \<open>try\<close>.
\<close>

function evict ::
  "string \<Rightarrow> int \<Rightarrow> bfolder \<Rightarrow> int \<Rightarrow> event list list \<times> (failure + bfolder \<times> int)" where
  "evict latest_save limit fs total_num =
     (if total_num \<ge> limit then
        (case evict_once latest_save fs of
           (out, Inl f) \<Rightarrow> ([out], Inl f)
         | (out, Inr fs') \<Rightarrow>
             (case evict latest_save limit fs' (total_num - 1) of
                (outs, r) \<Rightarrow> (out # outs, r)))
      else ([], Inr (fs, total_num)))"
  by pat_completeness auto
termination
  by (relation "measure (\<lambda>(latest_save, limit, fs, total_num). nat (total_num - limit + 1))")
    auto

declare evict.simps [simp del]

text \<open>\<open>if LIMIT:\<close> around the loop.\<close>

definition eviction_phase ::
  "string \<Rightarrow> int \<Rightarrow> bfolder \<Rightarrow> int \<Rightarrow> event list list \<times> (failure + bfolder \<times> int)" where
  "eviction_phase latest_save limit fs total_num =
     (if limit \<noteq> 0 then evict latest_save limit fs total_num
      else ([], Inr (fs, total_num)))"

section \<open>The collision loop\<close>

text \<open>
  \<open>while os.path.isfile(pathlib.Path(BACKUP_PATH, backup_name))\<close>: the number is
  incremented as long as a regular file of that name exists.  The loop ends because the
  names of distinct numbers are distinct and the folder is finite.
\<close>

lemma digit_char_inj: "a < 10 \<Longrightarrow> b < 10 \<Longrightarrow> digit_char a = digit_char b \<Longrightarrow> a = b"
  unfolding digit_char_def
  by (subst (asm) nth_eq_iff_index_eq) simp_all

lemma digits_nonempty: "digits n \<noteq> []"
  by (simp add: digits.simps [of n])

lemma digits_length: "length (digits n) = 1 \<longleftrightarrow> n < 10"
  by (simp add: digits.simps [of n] digits_nonempty)

lemma digits_inj: "digits n = digits m \<Longrightarrow> n = m"
proof (induction n arbitrary: m rule: digits.induct)
  case (1 n)
  show ?case
  proof (cases "n < 10")
    case True
    with "1.prems" have "m < 10" using digits_length by metis
    with True "1.prems" show ?thesis
      by (simp add: digits.simps [of n] digits.simps [of m] digit_char_inj)
  next
    case False
    with "1.prems" have m: "\<not> m < 10" using digits_length by metis
    from False m "1.prems" have "digits (n div 10) = digits (m div 10)"
      and "digit_char (n mod 10) = digit_char (m mod 10)"
      by (simp_all add: digits.simps [of n] digits.simps [of m])
    then have "n div 10 = m div 10" and "n mod 10 = m mod 10"
      using "1.IH" [OF False] digit_char_inj [of "n mod 10" "m mod 10"] by simp_all
    then show ?thesis by (metis div_mult_mod_eq)
  qed
qed

lemma digits_hd: "digits n \<noteq> [] \<and> hd (digits n) \<noteq> CHR ''-''"
proof (induction n rule: digits.induct)
  case (1 n)
  show ?case
  proof (cases "n < 10")
    case True
    then have "n \<in> {0,1,2,3,4,5,6,7,8,9}" by auto
    then show ?thesis
      by (auto simp: digits.simps [of n] digit_char_def)
  next
    case False
    with "1.IH" show ?thesis by (simp add: digits.simps [of n])
  qed
qed

lemma digits_not_minus: "digits n \<noteq> CHR ''-'' # s"
  using digits_hd [of n] by (metis list.sel(1))

lemma py_str_inj: "py_str i = py_str j \<Longrightarrow> i = j"
proof -
  assume eq: "py_str i = py_str j"
  consider "i < 0" "j < 0" | "i < 0" "0 \<le> j" | "0 \<le> i" "j < 0" | "0 \<le> i" "0 \<le> j"
    by linarith
  then show ?thesis
  proof cases
    case 1
    with eq have "nat (- i) = nat (- j)" by (simp add: py_str_def digits_inj)
    with 1 show ?thesis by simp
  next
    case 2
    with eq show ?thesis using digits_not_minus [of "nat j"] by (auto simp: py_str_def dest: sym)
  next
    case 3
    with eq show ?thesis using digits_not_minus [of "nat i"] by (auto simp: py_str_def)
  next
    case 4
    with eq have "nat i = nat j" by (simp add: py_str_def digits_inj)
    with 4 show ?thesis by simp
  qed
qed

lemma backup_name_inj: "backup_name s i e = backup_name s j e \<Longrightarrow> i = j"
  by (simp add: backup_name_def py_str_inj)

lemma isfile_listed: "isfile fs nm \<Longrightarrow> nm \<in> ename ` set (entries fs)"
  by (auto simp: isfile_def lookup_def find_Some_iff split: option.splits if_splits)

lemma finite_taken: "finite {m. isfile fs (backup_name s m e)}"
proof -
  have "inj (\<lambda>m. backup_name s m e)"
    by (rule injI) (rule backup_name_inj)
  then have "finite ((\<lambda>m. backup_name s m e) -` (ename ` set (entries fs)))"
    by (intro finite_vimageI) simp_all
  moreover have "{m. isfile fs (backup_name s m e)} \<subseteq> (\<lambda>m. backup_name s m e) -` (ename ` set (entries fs))"
    using isfile_listed by auto
  ultimately show ?thesis by (rule rev_finite_subset)
qed

function free_num :: "bfolder \<Rightarrow> string \<Rightarrow> string \<Rightarrow> int \<Rightarrow> int" where
  "free_num fs latest_save suffix_extension backup_num =
     (if isfile fs (backup_name latest_save backup_num suffix_extension)
      then free_num fs latest_save suffix_extension (backup_num + 1)
      else backup_num)"
  by pat_completeness auto
termination
proof (relation "measure (\<lambda>(fs, s, e, n). card {m. n \<le> m \<and> isfile fs (backup_name s m e)})")
  show "wf (measure (\<lambda>(fs, s, e, n). card {m. n \<le> m \<and> isfile fs (backup_name s m e)}))"
    by simp
next
  fix fs :: bfolder and s e :: string and n :: int
  assume taken: "isfile fs (backup_name s n e)"
  have fin: "finite {m. n \<le> m \<and> isfile fs (backup_name s m e)}"
    using finite_taken [of fs s e] by (rule rev_finite_subset) auto
  have "n \<in> {m. n \<le> m \<and> isfile fs (backup_name s m e)}"
    and "n \<notin> {m. n + 1 \<le> m \<and> isfile fs (backup_name s m e)}"
    and "{m. n + 1 \<le> m \<and> isfile fs (backup_name s m e)} \<subseteq> {m. n \<le> m \<and> isfile fs (backup_name s m e)}"
    using taken by auto
  then have "{m. n + 1 \<le> m \<and> isfile fs (backup_name s m e)} \<subset> {m. n \<le> m \<and> isfile fs (backup_name s m e)}"
    by blast
  then have "card {m. n + 1 \<le> m \<and> isfile fs (backup_name s m e)} < card {m. n \<le> m \<and> isfile fs (backup_name s m e)}"
    using fin by (rule psubset_card_mono [rotated])
  then show "((fs, s, e, n + 1), (fs, s, e, n)) \<in> measure (\<lambda>(fs, s, e, n). card {m. n \<le> m \<and> isfile fs (backup_name s m e)})"
    by simp
qed

declare free_num.simps [simp del]

section \<open>One backup cycle\<close>

text \<open>
  What a cycle observes of the world outside the backup folder: the modification time the
  file system gives the new artefact, the children of the save (for a plain copy), a
  failure of the archive writer or of the copy if there is one, the save's modification
  time read after archiving (\<open>None\<close>: the save is gone), whether the sleep is
  interrupted, the backup folder as found after the sleep when somebody else changed it,
  and the save's modification time read after the sleep.  The order of \<open>os.listdir\<close> is
  the file system's: \<open>slot\<close> is the place in the listing that it gives the new artefact.
\<close>

record env =
  slot :: nat
  artifact_mtime :: real
  save_tree :: "string list"
  producer :: "failure option"
  save_mtime :: "real option"
  interrupted :: bool
  during_sleep :: "bfolder option"
  after_sleep :: "real option"

record state =
  folder :: bfolder
  total_num :: int
  backup_num :: int
  suffix_extension :: string
  last_mod :: real
  current_mod :: real
  printed :: "event list"

text \<open>
  Writing the artefact.  When \<open>METHOD\<close> is true, \<open>zipfile.ZipFile(..., mode='x')\<close>
  creates the file: it raises \<open>FileNotFoundError\<close> when the backup folder is gone and
  \<open>FileExistsError\<close> when the name is taken.  Otherwise \<open>shutil.copytree\<close> makes the
  destination with \<open>os.makedirs\<close>: it raises \<open>FileExistsError\<close> when the name is
  taken, and when the backup folder is gone it creates the folder again, which then holds
  the copy alone.
\<close>

definition listing :: "bfolder \<Rightarrow> entry list" where
  "listing fs = (if present fs then entries fs else [])"

definition artefact :: "config \<Rightarrow> env \<Rightarrow> string \<Rightarrow> entry" where
  "artefact cfg ev nm =
     \<lparr>ename = nm, emtime = artifact_mtime ev,
       enode = (if truthy (METHOD cfg) then File else Dir (save_tree ev)),
       elocked = False\<rparr>"

definition archive :: "config \<Rightarrow> env \<Rightarrow> bfolder \<Rightarrow> string \<Rightarrow> failure + bfolder" where
  "archive cfg ev fs nm =
     (if truthy (METHOD cfg) \<and> \<not> present fs then Inl (Unhandled FileNotFoundError)
      else if lookup fs nm \<noteq> None then Inl (Unhandled FileExistsError)
      else
        (case producer ev of
           Some f \<Rightarrow> Inl f
         | None \<Rightarrow>
             Inr (fs\<lparr>present := True,
                    entries := take (slot ev) (listing fs) @ [artefact cfg ev nm]
                                 @ drop (slot ev) (listing fs)\<rparr>)))"

text \<open>The body of the backup loop up to the assignment of \<open>last_mod\<close>.\<close>

definition cycle :: "config \<Rightarrow> string \<Rightarrow> env \<Rightarrow> state \<Rightarrow> failure + state" where
  "cycle cfg latest_save ev st =
     (case eviction_phase latest_save (LIMIT cfg) (folder st) (total_num st) of
        (out, Inl f) \<Rightarrow> Inl f
      | (out, Inr (fs, remaining)) \<Rightarrow>
          (let ext = (if \<not> truthy (METHOD cfg) then [] else suffix_extension st);
               n = free_num fs latest_save ext (backup_num st);
               nm = backup_name latest_save n ext
           in case archive cfg ev fs nm of
                Inl f \<Rightarrow> Inl f
              | Inr fs' \<Rightarrow>
                  (case save_mtime ev of
                     None \<Rightarrow> Inl (Unhandled FileNotFoundError)
                   | Some t \<Rightarrow>
                       Inr (st\<lparr>folder := fs', total_num := remaining + 1, backup_num := n + 1,
                              suffix_extension := ext, last_mod := t,
                              printed := printed st @ concat out @ [Creating nm, Done]\<rparr>))))"

section \<open>The backup loop and the script\<close>

datatype outcome =
    Finished state   \<comment> \<open>Save hasn't been modified since last backup, exiting.\<close>
  | Exited state     \<comment> \<open>the sleep was interrupted\<close>
  | Failed failure
  | Running state    \<comment> \<open>the observations ran out while the loop was still going\<close>

fun backup_loop :: "config \<Rightarrow> string \<Rightarrow> env list \<Rightarrow> state \<Rightarrow> outcome" where
  "backup_loop cfg latest_save [] st =
     (if current_mod st \<noteq> last_mod st then Running st else Finished st)"
| "backup_loop cfg latest_save (ev # evs) st =
     (if current_mod st \<noteq> last_mod st then
        (case cycle cfg latest_save ev st of
           Inl f \<Rightarrow> Failed f
         | Inr st' \<Rightarrow>
             if interrupted ev then Exited st'
             else
               (case after_sleep ev of
                  None \<Rightarrow> Failed SaveRemoved
                | Some t \<Rightarrow>
                    backup_loop cfg latest_save evs
                      (st'\<lparr>current_mod := t,
                           folder := (case during_sleep ev of
                                        None \<Rightarrow> folder st' | Some fs \<Rightarrow> fs)\<rparr>)))
      else Finished st)"

text \<open>The state the loop starts from: the numbering scan runs here, once.\<close>

definition initial_state :: "bfolder \<Rightarrow> string \<Rightarrow> failure + state" where
  "initial_state fs latest_save =
     (if \<not> present fs then Inl (Unhandled FileNotFoundError)
      else
        (case numbering_scan latest_save (map ename (entries fs)) (0, 0) of
           Inl f \<Rightarrow> Inl f
         | Inr (bn, tn) \<Rightarrow>
             Inr \<lparr>folder = fs, total_num = tn, backup_num = bn, suffix_extension = ''.zip'',
                  last_mod = 0, current_mod = 1, printed = []\<rparr>))"

text \<open>
  The script.  \<open>mkdir p\<close> is the backup folder of playstyle \<open>p\<close> after
  \<open>os.mkdir(BACKUP_PATH)\<close>: the folder found or created, or \<open>None\<close> when creating it
  is denied.
\<close>

definition main ::
  "config \<Rightarrow> save_root \<Rightarrow> (string \<Rightarrow> bfolder option) \<Rightarrow> env list \<Rightarrow> outcome" where
  "main cfg save_root_dir mkdir evs =
     (case locate (FOLDER_NAME cfg) save_root_dir of
        Inl f \<Rightarrow> Failed f
      | Inr (latest_playstyle, latest_save, latest_modified) \<Rightarrow>
          (case mkdir latest_playstyle of
             None \<Rightarrow> Failed BackupDirDenied
           | Some fs \<Rightarrow>
               (case initial_state fs latest_save of
                  Inl f \<Rightarrow> Failed f
                | Inr st \<Rightarrow> backup_loop cfg latest_save evs st)))"

section \<open>Termination and length of the eviction loop\<close>

lemma evict_props:
  "int (length (fst (evict s limit fs tot))) \<le> max 0 (tot - limit + 1) \<and>
   (\<forall>fs' tot'. snd (evict s limit fs tot) = Inr (fs', tot') \<longrightarrow>
      tot' = tot - int (length (fst (evict s limit fs tot))) \<and> tot' < limit)"
proof (induction s limit fs tot rule: evict.induct)
  case (1 s limit fs tot)
  show ?case
  proof (cases "limit \<le> tot")
    case False
    then show ?thesis by (simp add: evict.simps [of s limit fs tot])
  next
    case True
    obtain out r where eo: "evict_once s fs = (out, r)" by (cases "evict_once s fs")
    show ?thesis
    proof (cases r)
      case (Inl f)
      with True eo show ?thesis by (simp add: evict.simps [of s limit fs tot])
    next
      case (Inr fs1)
      obtain outs1 r1 where ev: "evict s limit fs1 (tot - 1) = (outs1, r1)"
        by (cases "evict s limit fs1 (tot - 1)")
      have step: "evict s limit fs tot = (out # outs1, r1)"
        using True eo Inr ev by (simp add: evict.simps [of s limit fs tot])
      from "1.IH" [OF True eo [symmetric] Inr] ev
      have ih: "int (length outs1) \<le> max 0 (tot - 1 - limit + 1)"
        "\<forall>fs' tot'. r1 = Inr (fs', tot') \<longrightarrow> tot' = tot - 1 - int (length outs1) \<and> tot' < limit"
        by simp_all
      from ih True show ?thesis unfolding step by auto
    qed
  qed
qed

text \<open>
  Claim C10.  The eviction phase always returns: \<open>evict\<close> is a total function, its
  termination proved from the measure \<open>total_num - LIMIT + 1\<close>, which every iteration
  decreases whether or not its deletion succeeded.  For a limit of at least one and an
  in-memory count \<open>tot\<close> the phase starts at most \<open>tot - limit + 1\<close> iterations (none
  when the count is below the limit), and when it ends normally the count has gone down
  by one per iteration and is below the limit.
\<close>

theorem eviction_terminates_bounded:
  assumes "1 \<le> limit"
  shows "int (length (fst (eviction_phase s limit fs tot))) \<le> max 0 (tot - limit + 1)
    \<and> (\<forall>fs' tot'. snd (eviction_phase s limit fs tot) = Inr (fs', tot') \<longrightarrow>
          tot' = tot - int (length (fst (eviction_phase s limit fs tot))) \<and> tot' < limit)"
proof -
  from assms have "eviction_phase s limit fs tot = evict s limit fs tot"
    by (simp add: eviction_phase_def)
  then show ?thesis using evict_props [of s limit fs tot] by simp
qed

theorem eviction_terminates_bounded_witness:
  "(1::int) \<le> 2 \<and>
   int (length (fst (eviction_phase ''alpha'' 2
      \<lparr>present = True, protected = False,
        entries = [\<lparr>ename = ''alpha_bak0.zip'', emtime = 50, enode = File, elocked = True\<rparr>]\<rparr>
      4))) \<le> 3"
  using eviction_terminates_bounded [of 2 "''alpha''" "\<lparr>present = True, protected = False,
        entries = [\<lparr>ename = ''alpha_bak0.zip'', emtime = 50, enode = File, elocked = True\<rparr>]\<rparr>" 4]
  by simp

section \<open>Eviction when deletion is denied\<close>

lemma evict_once_denied:
  assumes "present fs" and "select_earliest s (entries fs) ([], 0) = (nm, t)"
    and "nm \<noteq> []" and "lookup fs nm = Some e" and "elocked e"
  shows "evict_once s fs = ([LimitReached nm, DeleteDenied], Inr fs)"
  using assms by (simp add: evict_once_def delete_backup_def)

lemma evict_denied:
  assumes "present fs" and "select_earliest s (entries fs) ([], 0) = (nm, t)"
    and "nm \<noteq> []" and "lookup fs nm = Some e" and "elocked e"
  shows "evict s limit fs tot =
    (replicate (nat (tot - limit + 1)) [LimitReached nm, DeleteDenied],
     Inr (fs, min tot (limit - 1)))"
proof (induction "nat (tot - limit + 1)" arbitrary: tot)
  case 0
  then have "tot < limit" by simp
  then show ?case using 0 by (simp add: evict.simps [of s limit fs tot])
next
  case (Suc k)
  then have le: "limit \<le> tot" and k: "k = nat (tot - 1 - limit + 1)" by simp_all
  have rep: "nat (tot - limit + 1) = Suc (nat (tot - 1 - limit + 1))" using le by simp
  from Suc.hyps(1) [OF k] le show ?case
    by (simp add: evict.simps [of s limit fs tot] evict_once_denied [OF assms] rep
        del: replicate_Suc) (simp add: min_def)
qed

text \<open>
  Claim C9, as the code has it.  A \<open>PermissionError\<close> on the deletion of the selected
  candidate does not end the eviction loop or the run: the denial is reported and the
  loop goes on.  The count is decremented in every iteration, also when the deletion was
  denied; the folder is unchanged, so each further iteration selects the same entry
  again, and after \<open>tot - limit + 1\<close> denied attempts the loop ends normally with the
  count at \<open>limit - 1\<close> although nothing was deleted.
\<close>

theorem denied_deletion_still_decrements:
  assumes "limit \<noteq> 0" and "present fs"
    and "select_earliest s (entries fs) ([], 0) = (nm, t)"
    and "nm \<noteq> []" and "lookup fs nm = Some e" and "elocked e"
  shows "eviction_phase s limit fs tot =
    (replicate (nat (tot - limit + 1)) [LimitReached nm, DeleteDenied],
     Inr (fs, min tot (limit - 1)))"
  using assms(1) evict_denied [OF assms(2-6)] by (simp add: eviction_phase_def)

theorem denied_deletion_counterexample:
  "eviction_phase ''alpha'' 1
     \<lparr>present = True, protected = False,
       entries = [\<lparr>ename = ''alpha_bak0.zip'', emtime = 50, enode = File, elocked = True\<rparr>]\<rparr> 1 =
   ([[LimitReached ''alpha_bak0.zip'', DeleteDenied]],
    Inr (\<lparr>present = True, protected = False,
       entries = [\<lparr>ename = ''alpha_bak0.zip'', emtime = 50, enode = File, elocked = True\<rparr>]\<rparr>, 0))"
  by (simp add: eviction_phase_def evict.simps evict_once_def belongs_def delete_backup_def lookup_def)

theorem denied_deletion_still_decrements_witness:
  "(2::int) \<noteq> 0 \<and>
   eviction_phase ''alpha'' 2
     \<lparr>present = True, protected = False,
       entries = [\<lparr>ename = ''alpha_bak0.zip'', emtime = 50, enode = File, elocked = True\<rparr>,
                  \<lparr>ename = ''alpha_bak1.zip'', emtime = 60, enode = File, elocked = True\<rparr>]\<rparr> 3 =
   ([[LimitReached ''alpha_bak0.zip'', DeleteDenied], [LimitReached ''alpha_bak0.zip'', DeleteDenied]],
    Inr (\<lparr>present = True, protected = False,
       entries = [\<lparr>ename = ''alpha_bak0.zip'', emtime = 50, enode = File, elocked = True\<rparr>,
                  \<lparr>ename = ''alpha_bak1.zip'', emtime = 60, enode = File, elocked = True\<rparr>]\<rparr>, 1))"
  using denied_deletion_still_decrements [of 2 "\<lparr>present = True, protected = False,
       entries = [\<lparr>ename = ''alpha_bak0.zip'', emtime = 50, enode = File, elocked = True\<rparr>,
                  \<lparr>ename = ''alpha_bak1.zip'', emtime = 60, enode = File, elocked = True\<rparr>]\<rparr>"
     "''alpha''" "''alpha_bak0.zip''" 50 "\<lparr>ename = ''alpha_bak0.zip'', emtime = 50, enode = File, elocked = True\<rparr>" 3]
  by (simp add: belongs_def lookup_def numeral_2_eq_2)

section \<open>Eviction deletes the oldest backups\<close>

lemma select_earliest_acc:
  assumes "\<forall>e\<in>set es. belongs s (ename e) \<and> emtime e \<noteq> 0" and "t \<noteq> 0"
  shows "\<exists>b' t'. select_earliest s es (b, t) = (b', t') \<and> t' \<le> t \<and>
           (\<forall>e\<in>set es. t' \<le> emtime e) \<and>
           ((b', t') = (b, t) \<or> (\<exists>m\<in>set es. b' = ename m \<and> t' = emtime m))"
  using assms
proof (induction es arbitrary: b t)
  case Nil
  then show ?case by simp
next
  case (Cons x xs)
  show ?case
  proof (cases "emtime x < t")
    case True
    from Cons.prems have "emtime x \<noteq> 0" and xs: "\<forall>e\<in>set xs. belongs s (ename e) \<and> emtime e \<noteq> 0"
      by simp_all
    from Cons.IH [OF xs \<open>emtime x \<noteq> 0\<close>, of "ename x"] obtain b' t' where
      r: "select_earliest s xs (ename x, emtime x) = (b', t')" "t' \<le> emtime x"
        "\<forall>e\<in>set xs. t' \<le> emtime e"
        "(b', t') = (ename x, emtime x) \<or> (\<exists>m\<in>set xs. b' = ename m \<and> t' = emtime m)"
      by blast
    from Cons.prems True have sel: "select_earliest s (x # xs) (b, t) = (b', t')"
      using r(1) by simp
    have "t' \<le> t" using r(2) True by simp
    moreover have "\<forall>e\<in>set (x # xs). t' \<le> emtime e" using r(2,3) by simp
    moreover have "\<exists>m\<in>set (x # xs). b' = ename m \<and> t' = emtime m" using r(4) by auto
    ultimately show ?thesis using sel by blast
  next
    case False
    from Cons.prems have xs: "\<forall>e\<in>set xs. belongs s (ename e) \<and> emtime e \<noteq> 0" and "t \<noteq> 0"
      by simp_all
    from Cons.IH [OF xs \<open>t \<noteq> 0\<close>, of b] obtain b' t' where
      r: "select_earliest s xs (b, t) = (b', t')" "t' \<le> t"
        "\<forall>e\<in>set xs. t' \<le> emtime e"
        "(b', t') = (b, t) \<or> (\<exists>m\<in>set xs. b' = ename m \<and> t' = emtime m)"
      by blast
    from Cons.prems False have sel: "select_earliest s (x # xs) (b, t) = (b', t')"
      using r(1) by simp
    have "\<forall>e\<in>set (x # xs). t' \<le> emtime e" using r(2,3) False by simp
    moreover have "(b', t') = (b, t) \<or> (\<exists>m\<in>set (x # xs). b' = ename m \<and> t' = emtime m)"
      using r(4) by auto
    ultimately show ?thesis using sel r(2) by blast
  qed
qed

lemma select_earliest_min:
  assumes "es \<noteq> []" and "\<forall>e\<in>set es. belongs s (ename e) \<and> emtime e \<noteq> 0"
  shows "\<exists>m\<in>set es. select_earliest s es ([], 0) = (ename m, emtime m) \<and>
           (\<forall>e\<in>set es. emtime m \<le> emtime e)"
proof -
  from assms(1) obtain x xs where es: "es = x # xs" by (cases es) auto
  with assms(2) have x: "belongs s (ename x)" "emtime x \<noteq> 0"
    and xs: "\<forall>e\<in>set xs. belongs s (ename e) \<and> emtime e \<noteq> 0" by simp_all
  from select_earliest_acc [OF xs x(2), of "ename x"] obtain b' t' where
    r: "select_earliest s xs (ename x, emtime x) = (b', t')" "t' \<le> emtime x"
      "\<forall>e\<in>set xs. t' \<le> emtime e"
      "(b', t') = (ename x, emtime x) \<or> (\<exists>m\<in>set xs. b' = ename m \<and> t' = emtime m)"
    by blast
  have sel: "select_earliest s es ([], 0) = (b', t')" using es x r(1) by simp
  from r(4) obtain m where m: "m \<in> set es" "b' = ename m" "t' = emtime m"
    using es by auto
  have "\<forall>e\<in>set es. emtime m \<le> emtime e" using r(2,3) m(3) es by simp
  with sel m show ?thesis by blast
qed

lemma find_inj:
  "m \<in> set es \<Longrightarrow> inj_on f (set es) \<Longrightarrow> find (\<lambda>e. f e = f m) es = Some m"
  by (induction es) (auto simp: inj_on_def)

lemma filter_inj:
  "m \<in> set es \<Longrightarrow> inj_on f (set es) \<Longrightarrow>
     filter (\<lambda>e. f e \<noteq> f m) es = filter (\<lambda>e. e \<noteq> m) es"
  by (rule filter_cong) (auto simp: inj_on_def)

lemma belongs_nonempty: "s \<noteq> [] \<Longrightarrow> belongs s nm \<Longrightarrow> nm \<noteq> []"
  by (auto simp: belongs_def)

lemma evict_once_oldest:
  assumes "s \<noteq> []" and "es \<noteq> []"
    and good: "\<forall>e\<in>set es. belongs s (ename e) \<and> enode e = File \<and> \<not> elocked e \<and> emtime e \<noteq> 0"
    and dn: "distinct (map ename es)"
  shows "\<exists>m\<in>set es. (\<forall>e\<in>set es. emtime m \<le> emtime e) \<and>
           evict_once s \<lparr>present = True, protected = p, entries = es\<rparr> =
             ([LimitReached (ename m)],
              Inr \<lparr>present = True, protected = p, entries = filter (\<lambda>e. e \<noteq> m) es\<rparr>)"
proof -
  from good have g2: "\<forall>e\<in>set es. belongs s (ename e) \<and> emtime e \<noteq> 0" by blast
  from select_earliest_min [OF assms(2) g2] obtain m where
    m: "m \<in> set es" "select_earliest s es ([], 0) = (ename m, emtime m)"
      "\<forall>e\<in>set es. emtime m \<le> emtime e" by blast
  from dn have inj: "inj_on ename (set es)" by (simp add: distinct_map)
  from m(1) good assms(1) have ne: "ename m \<noteq> []" using belongs_nonempty by blast
  from m(1) good have mf: "enode m = File" "\<not> elocked m" by auto
  have "evict_once s \<lparr>present = True, protected = p, entries = es\<rparr> =
             ([LimitReached (ename m)],
              Inr \<lparr>present = True, protected = p, entries = filter (\<lambda>e. e \<noteq> m) es\<rparr>)"
    using m(2) ne mf find_inj [OF m(1) inj] filter_inj [OF m(1) inj]
    by (simp add: evict_once_def delete_backup_def lookup_def remove_entry_def)
  with m show ?thesis by blast
qed

lemma length_filter_neq:
  "distinct es \<Longrightarrow> m \<in> set es \<Longrightarrow> length (filter (\<lambda>e. e \<noteq> m) es) = length es - 1"
proof -
  assume d: "distinct es" and m: "m \<in> set es"
  have "distinct (filter (\<lambda>e. e \<noteq> m) es)" using d by simp
  then have "length (filter (\<lambda>e. e \<noteq> m) es) = card (set (filter (\<lambda>e. e \<noteq> m) es))"
    by (rule distinct_card [symmetric])
  also have "set (filter (\<lambda>e. e \<noteq> m) es) = set es - {m}" by auto
  also have "card (set es - {m}) = card (set es) - 1" using m by simp
  also have "card (set es) = length es" using d by (simp add: distinct_card)
  finally show ?thesis .
qed

lemma evict_oldest:
  assumes "s \<noteq> []"
  shows "\<forall>e\<in>set es. belongs s (ename e) \<and> enode e = File \<and> \<not> elocked e \<and> emtime e \<noteq> 0 \<Longrightarrow>
    distinct (map ename es) \<Longrightarrow> distinct (map emtime es) \<Longrightarrow>
    k = nat (tot - limit + 1) \<Longrightarrow> k \<le> length es \<Longrightarrow>
    \<exists>D outs. D \<subseteq> set es \<and> card D = k \<and> (\<forall>d\<in>D. \<forall>e\<in>set es - D. emtime d < emtime e) \<and>
      length outs = k \<and>
      evict s limit \<lparr>present = True, protected = p, entries = es\<rparr> tot =
        (outs, Inr (\<lparr>present = True, protected = p, entries = filter (\<lambda>e. e \<notin> D) es\<rparr>,
                    min tot (limit - 1)))"
proof (induction k arbitrary: es tot)
  case 0
  then have "tot < limit" by simp
  then have "evict s limit \<lparr>present = True, protected = p, entries = es\<rparr> tot =
     ([], Inr (\<lparr>present = True, protected = p, entries = filter (\<lambda>e. e \<notin> {}) es\<rparr>, min tot (limit - 1)))"
    by (simp add: evict.simps [of s limit _ tot])
  then show ?case by (intro exI [of _ "{}"] exI [of _ "[]"]) simp
next
  case (Suc k)
  let ?fs = "\<lparr>present = True, protected = p, entries = es\<rparr>"
  from Suc.prems have le: "limit \<le> tot" and k: "k = nat (tot - 1 - limit + 1)"
    and ne: "es \<noteq> []" by auto
  from evict_once_oldest [OF assms ne Suc.prems(1) Suc.prems(2), of p] obtain m where
    m: "m \<in> set es" "\<forall>e\<in>set es. emtime m \<le> emtime e"
      "evict_once s ?fs = ([LimitReached (ename m)],
          Inr \<lparr>present = True, protected = p, entries = filter (\<lambda>e. e \<noteq> m) es\<rparr>)"
    by blast
  let ?es1 = "filter (\<lambda>e. e \<noteq> m) es"
  from Suc.prems(2) have des: "distinct es" by (simp add: distinct_map)
  have good1: "\<forall>e\<in>set ?es1. belongs s (ename e) \<and> enode e = File \<and> \<not> elocked e \<and> emtime e \<noteq> 0"
    using Suc.prems(1) by simp
  have dn1: "distinct (map ename ?es1)" using Suc.prems(2) by (rule distinct_map_filter)
  have dm1: "distinct (map emtime ?es1)" using Suc.prems(3) by (rule distinct_map_filter)
  have len1: "k \<le> length ?es1"
    using Suc.prems(5) length_filter_neq [OF des m(1)] by simp
  from Suc.IH [OF good1 dn1 dm1 k len1] obtain D1 outs1 where
    ih: "D1 \<subseteq> set ?es1" "card D1 = k" "\<forall>d\<in>D1. \<forall>e\<in>set ?es1 - D1. emtime d < emtime e"
      "length outs1 = k"
      "evict s limit \<lparr>present = True, protected = p, entries = ?es1\<rparr> (tot - 1) =
        (outs1, Inr (\<lparr>present = True, protected = p, entries = filter (\<lambda>e. e \<notin> D1) ?es1\<rparr>,
                    min (tot - 1) (limit - 1)))"
    by blast
  let ?D = "insert m D1"
  have fin: "finite D1" using ih(1) by (rule finite_subset) simp
  have mD1: "m \<notin> D1" using ih(1) by auto
  have c1: "?D \<subseteq> set es" using ih(1) m(1) by auto
  have c2: "card ?D = Suc k" using fin mD1 ih(2) by simp
  have inj: "inj_on emtime (set es)" using Suc.prems(3) by (simp add: distinct_map)
  have c3: "\<forall>d\<in>?D. \<forall>e\<in>set es - ?D. emtime d < emtime e"
  proof (intro ballI)
    fix d e assume d: "d \<in> ?D" and e: "e \<in> set es - ?D"
    show "emtime d < emtime e"
    proof (cases "d = m")
      case True
      from e have "e \<in> set es" "e \<noteq> m" by auto
      with m(1) inj have "emtime e \<noteq> emtime m" by (auto simp: inj_on_def)
      with m(2) \<open>e \<in> set es\<close> True show ?thesis by fastforce
    next
      case False
      with d have "d \<in> D1" by simp
      moreover from e have "e \<in> set ?es1 - D1" by auto
      ultimately show ?thesis using ih(3) by blast
    qed
  qed
  have flt: "filter (\<lambda>e. e \<notin> D1) ?es1 = filter (\<lambda>e. e \<notin> ?D) es"
    by (auto intro: filter_cong)
  have c5: "evict s limit ?fs tot =
      ([LimitReached (ename m)] # outs1,
       Inr (\<lparr>present = True, protected = p, entries = filter (\<lambda>e. e \<notin> ?D) es\<rparr>, min tot (limit - 1)))"
    using le m(3) ih(5) flt by (simp add: evict.simps [of s limit ?fs tot] min_def)
  show ?case
    using c1 c2 c3 c5 ih(4)
    by (intro exI [of _ ?D] exI [of _ "[LimitReached (ename m)] # outs1"]) simp
qed

text \<open>
  Claim C1, as the code has it.  The loop runs while \<open>total_num >= LIMIT\<close>, so it makes
  room for the backup that follows: with a limit of 3 and a folder of exactly 5 entries
  of the active save, all of them archive files that may be deleted, with distinct
  names and distinct non-zero modification times, the eviction phase deletes exactly the
  3 oldest entries and leaves the 2 newest untouched, in their listing order, whatever
  the order of the listing; the count is then 2.  (A modification time of 0 is the
  loop's mark for "no candidate yet".)
\<close>

theorem eviction_limit3_of5:
  assumes "s \<noteq> []" and "length es = 5"
    and "\<forall>e\<in>set es. belongs s (ename e) \<and> enode e = File \<and> \<not> elocked e \<and> emtime e \<noteq> 0"
    and "distinct (map ename es)" and "distinct (map emtime es)"
  shows "\<exists>D outs.
    eviction_phase s 3 \<lparr>present = True, protected = p, entries = es\<rparr> 5 =
      (outs, Inr (\<lparr>present = True, protected = p, entries = filter (\<lambda>e. e \<notin> D) es\<rparr>, 2)) \<and>
    D \<subseteq> set es \<and> card D = 3 \<and> length (filter (\<lambda>e. e \<notin> D) es) = 2 \<and>
    (\<forall>d\<in>D. \<forall>e\<in>set es - D. emtime d < emtime e)"
proof -
  have k: "(3::nat) = nat (5 - 3 + 1)" and len: "(3::nat) \<le> length es"
    using assms(2) by simp_all
  from evict_oldest [OF assms(1) assms(3) assms(4) assms(5) k len, of p] obtain D outs where
    r: "D \<subseteq> set es" "card D = 3" "\<forall>d\<in>D. \<forall>e\<in>set es - D. emtime d < emtime e"
      "evict s 3 \<lparr>present = True, protected = p, entries = es\<rparr> 5 =
        (outs, Inr (\<lparr>present = True, protected = p, entries = filter (\<lambda>e. e \<notin> D) es\<rparr>,
                    min 5 (3 - 1)))"
    by blast
  from assms(4) have des: "distinct es" by (simp add: distinct_map)
  then have "distinct (filter (\<lambda>e. e \<notin> D) es)" by simp
  then have "length (filter (\<lambda>e. e \<notin> D) es) = card (set (filter (\<lambda>e. e \<notin> D) es))"
    by (rule distinct_card [symmetric])
  also have "set (filter (\<lambda>e. e \<notin> D) es) = set es - D" by auto
  also have "card (set es - D) = card (set es) - card D"
    using r(1) by (intro card_Diff_subset) (auto intro: finite_subset)
  also have "\<dots> = 2" using des assms(2) r(2) by (simp add: distinct_card)
  finally have l2: "length (filter (\<lambda>e. e \<notin> D) es) = 2" .
  have "eviction_phase s 3 \<lparr>present = True, protected = p, entries = es\<rparr> 5 =
      (outs, Inr (\<lparr>present = True, protected = p, entries = filter (\<lambda>e. e \<notin> D) es\<rparr>, 2))"
    using r(4) by (simp add: eviction_phase_def)
  with r l2 show ?thesis by blast
qed

theorem eviction_limit3_of5_counterexample:
  "eviction_phase ''alpha'' 3
     \<lparr>present = True, protected = False, entries =
       [\<lparr>ename = ''alpha_bak0.zip'', emtime = 50, enode = File, elocked = False\<rparr>,
        \<lparr>ename = ''alpha_bak1.zip'', emtime = 20, enode = File, elocked = False\<rparr>,
        \<lparr>ename = ''alpha_bak2.zip'', emtime = 40, enode = File, elocked = False\<rparr>,
        \<lparr>ename = ''alpha_bak3.zip'', emtime = 10, enode = File, elocked = False\<rparr>,
        \<lparr>ename = ''alpha_bak4.zip'', emtime = 30, enode = File, elocked = False\<rparr>]\<rparr> 5 =
   ([[LimitReached ''alpha_bak3.zip''], [LimitReached ''alpha_bak1.zip''],
     [LimitReached ''alpha_bak4.zip'']],
    Inr (\<lparr>present = True, protected = False, entries =
       [\<lparr>ename = ''alpha_bak0.zip'', emtime = 50, enode = File, elocked = False\<rparr>,
        \<lparr>ename = ''alpha_bak2.zip'', emtime = 40, enode = File, elocked = False\<rparr>]\<rparr>, 2))"
  by (simp add: eviction_phase_def evict.simps evict_once_def belongs_def delete_backup_def
      lookup_def remove_entry_def)

theorem eviction_limit3_of5_witness:
  "\<exists>D outs.
    eviction_phase ''alpha'' 3 \<lparr>present = True, protected = False, entries =
       [\<lparr>ename = ''alpha_bak0.zip'', emtime = 50, enode = File, elocked = False\<rparr>,
        \<lparr>ename = ''alpha_bak1.zip'', emtime = 20, enode = File, elocked = False\<rparr>,
        \<lparr>ename = ''alpha_bak2.zip'', emtime = 40, enode = File, elocked = False\<rparr>,
        \<lparr>ename = ''alpha_bak3.zip'', emtime = 10, enode = File, elocked = False\<rparr>,
        \<lparr>ename = ''alpha_bak4.zip'', emtime = 30, enode = File, elocked = False\<rparr>]\<rparr> 5 =
      (outs, Inr (\<lparr>present = True, protected = False, entries = filter (\<lambda>e. e \<notin> D)
       [\<lparr>ename = ''alpha_bak0.zip'', emtime = 50, enode = File, elocked = False\<rparr>,
        \<lparr>ename = ''alpha_bak1.zip'', emtime = 20, enode = File, elocked = False\<rparr>,
        \<lparr>ename = ''alpha_bak2.zip'', emtime = 40, enode = File, elocked = False\<rparr>,
        \<lparr>ename = ''alpha_bak3.zip'', emtime = 10, enode = File, elocked = False\<rparr>,
        \<lparr>ename = ''alpha_bak4.zip'', emtime = 30, enode = File, elocked = False\<rparr>]\<rparr>, 2)) \<and>
    card D = 3 \<and>
    length (filter (\<lambda>e. e \<notin> D)
       [\<lparr>ename = ''alpha_bak0.zip'', emtime = 50, enode = File, elocked = False\<rparr>,
        \<lparr>ename = ''alpha_bak1.zip'', emtime = 20, enode = File, elocked = False\<rparr>,
        \<lparr>ename = ''alpha_bak2.zip'', emtime = 40, enode = File, elocked = False\<rparr>,
        \<lparr>ename = ''alpha_bak3.zip'', emtime = 10, enode = File, elocked = False\<rparr>,
        \<lparr>ename = ''alpha_bak4.zip'', emtime = 30, enode = File, elocked = False\<rparr>]) = 2"
proof -
  let ?es = "[\<lparr>ename = ''alpha_bak0.zip'', emtime = 50, enode = File, elocked = False\<rparr>,
        \<lparr>ename = ''alpha_bak1.zip'', emtime = 20, enode = File, elocked = False\<rparr>,
        \<lparr>ename = ''alpha_bak2.zip'', emtime = 40, enode = File, elocked = False\<rparr>,
        \<lparr>ename = ''alpha_bak3.zip'', emtime = 10, enode = File, elocked = False\<rparr>,
        \<lparr>ename = ''alpha_bak4.zip'', emtime = 30, enode = File, elocked = False\<rparr>]"
  have h1: "''alpha'' \<noteq> []" by simp
  have h2: "length ?es = 5" by simp
  have h3: "\<forall>e\<in>set ?es. belongs ''alpha'' (ename e) \<and> enode e = File \<and> \<not> elocked e \<and> emtime e \<noteq> 0"
    by (simp add: belongs_def)
  have h4: "distinct (map ename ?es)" by simp
  have h5: "distinct (map emtime ?es)" by simp
  from eviction_limit3_of5 [OF h1 h2 h3 h4 h5, of False] show ?thesis by blast
qed

section \<open>Which entries belong to the save\<close>








section \<open>Which save is chosen\<close>

lemma pick_append: "pick (xs @ ys) acc = pick ys (pick xs acc)"
  by (induction xs acc rule: pick.induct) simp_all

lemma scan_saves_pick:
  "scan_saves fname p saves acc =
     (case first_mtime_raise fname saves of
        Some e \<Rightarrow> Inl (Unhandled e)
      | None \<Rightarrow> Inr (pick (eligible fname p saves) acc))"
proof (induction saves arbitrary: acc)
  case Nil
  then show ?case by simp
next
  case (Cons sm saves)
  obtain save m where sm: "sm = (save, m)" by (cases sm)
  obtain lp ls lm where acc: "acc = (lp, ls, lm)" by (cases acc)
  show ?case
  proof (cases m)
    case (Mtime t)
    show ?thesis unfolding sm acc Mtime
      by (simp add: Cons.IH split: option.splits)
  next
    case (MtimeRaises e)
    show ?thesis unfolding sm acc MtimeRaises
      by (simp add: Cons.IH split: option.splits)
  qed
qed

lemma scan_playstyles_pick:
  "scan_playstyles fname ps acc =
     (case first_raise fname ps of
        Some e \<Rightarrow> Inl (Unhandled e)
      | None \<Rightarrow> Inr (pick (candidates fname ps) acc))"
proof (induction ps arbitrary: acc)
  case Nil
  then show ?case by simp
next
  case (Cons pd ps)
  obtain p d where pd: "pd = (p, d)" by (cases pd)
  show ?case
  proof (cases d)
    case (Listed saves)
    show ?thesis unfolding pd Listed
      by (simp add: Cons.IH scan_saves_pick pick_append split: option.splits)
  next
    case (Raises e)
    with pd show ?thesis by simp
  qed
qed

lemma pick_none: "\<forall>c\<in>set cs. snd (snd c) \<le> lm \<Longrightarrow> pick cs (lp, ls, lm) = (lp, ls, lm)"
  by (induction cs) auto

lemma pick_some:
  "\<exists>c\<in>set cs. lm < snd (snd c) \<Longrightarrow>
     \<exists>p s t. pick cs (lp, ls, lm) = (p, s, t) \<and> (p, s, t) \<in> set cs \<and> lm < t \<and>
       (\<forall>c\<in>set cs. snd (snd c) \<le> t) \<and>
       hd (filter (\<lambda>c. snd (snd c) = t) cs) = (p, s, t)"
proof (induction cs arbitrary: lp ls lm)
  case Nil
  then show ?case by simp
next
  case (Cons c0 cs)
  obtain p0 s0 t0 where c0: "c0 = (p0, s0, t0)" by (cases c0)
  show ?case
  proof (cases "lm < t0")
    case True
    then have step: "pick (c0 # cs) (lp, ls, lm) = pick cs (p0, s0, t0)" by (simp add: c0)
    show ?thesis
    proof (cases "\<exists>c\<in>set cs. t0 < snd (snd c)")
      case ex: True
      from Cons.IH [OF ex, of p0 s0] obtain p s t where
        r: "pick cs (p0, s0, t0) = (p, s, t)" "(p, s, t) \<in> set cs" "t0 < t"
          "\<forall>c\<in>set cs. snd (snd c) \<le> t" "hd (filter (\<lambda>c. snd (snd c) = t) cs) = (p, s, t)"
        by blast
      have "pick (c0 # cs) (lp, ls, lm) = (p, s, t)" using step r(1) by simp
      moreover have "(p, s, t) \<in> set (c0 # cs)" using r(2) by simp
      moreover have "lm < t" using True r(3) by simp
      moreover have "\<forall>c\<in>set (c0 # cs). snd (snd c) \<le> t" using r(3,4) c0 by simp
      moreover have "hd (filter (\<lambda>c. snd (snd c) = t) (c0 # cs)) = (p, s, t)"
        using r(3,5) c0 by simp
      ultimately show ?thesis by blast
    next
      case False
      then have le: "\<forall>c\<in>set cs. snd (snd c) \<le> t0" by auto
      have "pick (c0 # cs) (lp, ls, lm) = (p0, s0, t0)" using step pick_none [OF le] by simp
      moreover have "(p0, s0, t0) \<in> set (c0 # cs)" using c0 by simp
      moreover have "\<forall>c\<in>set (c0 # cs). snd (snd c) \<le> t0" using le c0 by simp
      moreover have "hd (filter (\<lambda>c. snd (snd c) = t0) (c0 # cs)) = (p0, s0, t0)"
        using c0 by simp
      ultimately show ?thesis using True by blast
    qed
  next
    case False
    then have step: "pick (c0 # cs) (lp, ls, lm) = pick cs (lp, ls, lm)" by (simp add: c0)
    from Cons.prems False c0 have ex: "\<exists>c\<in>set cs. lm < snd (snd c)" by auto
    from Cons.IH [OF ex, of lp ls] obtain p s t where
      r: "pick cs (lp, ls, lm) = (p, s, t)" "(p, s, t) \<in> set cs" "lm < t"
        "\<forall>c\<in>set cs. snd (snd c) \<le> t" "hd (filter (\<lambda>c. snd (snd c) = t) cs) = (p, s, t)"
      by blast
    have "pick (c0 # cs) (lp, ls, lm) = (p, s, t)" using step r(1) by simp
    moreover have "(p, s, t) \<in> set (c0 # cs)" using r(2) by simp
    moreover have "\<forall>c\<in>set (c0 # cs). snd (snd c) \<le> t" using r(3,4) c0 False by simp
    moreover have "hd (filter (\<lambda>c. snd (snd c) = t) (c0 # cs)) = (p, s, t)"
      using r(3,5) c0 False by simp
    ultimately show ?thesis using r(3) by blast
  qed
qed

lemma locate_cons:
  "locate fname (Listed ((p0, d0) # rest)) =
     (case scan_playstyles fname ((p0, d0) # rest) (p0, [], 0) of
        Inl f \<Rightarrow> Inl f
      | Inr (lp, ls, lm) \<Rightarrow> if ls = [] then Inl NoSavesFound else Inr (lp, ls, lm))"
  by (simp add: locate_def del: scan_playstyles.simps)

lemma locate_listed:
  assumes "first_raise fname ps = None" and "ps \<noteq> []"
  shows "locate fname (Listed ps) =
    (case pick (candidates fname ps) (fst (hd ps), [], 0) of
       (lp, ls, lm) \<Rightarrow> if ls = [] then Inl NoSavesFound else Inr (lp, ls, lm))"
proof -
  from assms(2) obtain p0 d0 rest where ps: "ps = (p0, d0) # rest" by (cases ps) auto
  have "scan_playstyles fname ps (p0, [], 0) = Inr (pick (candidates fname ps) (p0, [], 0))"
    using assms(1) by (simp add: scan_playstyles_pick)
  then show ?thesis
    using locate_cons [of fname p0 d0 rest] by (simp add: ps)
qed

lemma locate_raise:
  assumes "first_raise fname ps = Some e"
  shows "locate fname (Listed ps) = Inl (Unhandled e)"
proof -
  from assms obtain p0 d0 rest where ps: "ps = (p0, d0) # rest" by (cases ps) auto
  have "scan_playstyles fname ps (p0, [], 0) = Inl (Unhandled e)"
    using assms by (simp add: scan_playstyles_pick)
  then show ?thesis
    using locate_cons [of fname p0 d0 rest] by (simp add: ps)
qed

lemma locate_success:
  assumes "first_raise fname ps = None"
    and "\<forall>c\<in>set (candidates fname ps). fst (snd c) \<noteq> []"
    and "\<exists>c\<in>set (candidates fname ps). 0 < snd (snd c)"
  shows "\<exists>p s t. locate fname (Listed ps) = Inr (p, s, t) \<and>
           (p, s, t) \<in> set (candidates fname ps) \<and>
           (\<forall>c\<in>set (candidates fname ps). snd (snd c) \<le> t) \<and>
           hd (filter (\<lambda>c. snd (snd c) = t) (candidates fname ps)) = (p, s, t)"
proof -
  from assms(3) have ne: "ps \<noteq> []" by auto
  from pick_some [OF assms(3), of "fst (hd ps)" "[]"] obtain p s t where
    r: "pick (candidates fname ps) (fst (hd ps), [], 0) = (p, s, t)"
      "(p, s, t) \<in> set (candidates fname ps)"
      "\<forall>c\<in>set (candidates fname ps). snd (snd c) \<le> t"
      "hd (filter (\<lambda>c. snd (snd c) = t) (candidates fname ps)) = (p, s, t)"
    by blast
  from r(2) assms(2) have "s \<noteq> []" by fastforce
  then have "locate fname (Listed ps) = Inr (p, s, t)"
    using locate_listed [OF assms(1) ne] r(1) by simp
  with r show ?thesis by blast
qed

text \<open>
  Claim C3 asks for the child of maximal modification time whatever the times are.  The
  comparison starts from \<open>latest_modified = 0.0\<close> and is strict, so a child whose time
  is not positive is never chosen (\<open>locate_success\<close> is the claim for roots with a
  child of positive time).  On a root whose only playstyle holds two saves with the
  distinct times \<open>-3600\<close> and \<open>0\<close> the script reports that there are no saves, where
  the claim has it return the save of time \<open>0\<close>.
\<close>

theorem locate_misses_nonpositive_time:
  "locate ''save_backups''
     (Listed [(''Sandbox'', Listed [(''older'', Mtime (- 3600)), (''old'', Mtime 0)])])
     = Inl NoSavesFound"
  by (simp add: locate_def)

text \<open>
  Claim C4, as the code has it.  A root that cannot be listed for lack of permission gives
  the reported failure \<open>AccessDenied\<close>.  Neither listing a playstyle nor reading the
  modification time of a child is guarded: the first entry of the root that cannot be
  listed (permission denied, or not a directory), or the first child other than the
  backup folder whose time cannot be read, whichever the scan meets first, ends the run
  with its exception, unhandled.  When nothing raises and the children other than the
  backup folder have positive modification times, \<open>locate\<close> fails with
  \<open>NoSavesFound\<close> exactly when there is no such child (so for an empty root, and when
  every playstyle holds at most the backup folder), and succeeds otherwise.
\<close>

theorem locate_failures:
  "locate fname (Raises e) = Inl (if e = PermissionError then AccessDenied else Unhandled e) \<and>
   (first_raise fname ps = Some e' \<longrightarrow> locate fname (Listed ps) = Inl (Unhandled e')) \<and>
   (first_raise fname ps = None \<and>
    (\<forall>c\<in>set (candidates fname ps). fst (snd c) \<noteq> [] \<and> 0 < snd (snd c)) \<longrightarrow>
      (locate fname (Listed ps) = Inl NoSavesFound \<longleftrightarrow> candidates fname ps = []) \<and>
      (candidates fname ps \<noteq> [] \<longrightarrow> (\<exists>r. locate fname (Listed ps) = Inr r)))"
proof (intro conjI impI)
  show "locate fname (Raises e) = Inl (if e = PermissionError then AccessDenied else Unhandled e)"
    by (simp add: locate_def)
next
  assume fr: "first_raise fname ps = Some e'"
  then show "locate fname (Listed ps) = Inl (Unhandled e')" by (rule locate_raise)
next
  assume a: "first_raise fname ps = None \<and>
    (\<forall>c\<in>set (candidates fname ps). fst (snd c) \<noteq> [] \<and> 0 < snd (snd c))"
  then have fr: "first_raise fname ps = None"
    and names: "\<forall>c\<in>set (candidates fname ps). fst (snd c) \<noteq> []"
    and pos: "\<forall>c\<in>set (candidates fname ps). 0 < snd (snd c)" by simp_all
  show "locate fname (Listed ps) = Inl NoSavesFound \<longleftrightarrow> candidates fname ps = []"
  proof (cases "candidates fname ps = []")
    case True
    then have le: "\<forall>c\<in>set (candidates fname ps). snd (snd c) \<le> 0" by simp
    have "locate fname (Listed ps) = Inl NoSavesFound"
    proof (cases "ps = []")
      case True
      then show ?thesis by (simp add: locate_def)
    next
      case False
      show ?thesis using locate_listed [OF fr False] pick_none [OF le] by simp
    qed
    with True show ?thesis by simp
  next
    case False
    then obtain c where "c \<in> set (candidates fname ps)" by (cases "candidates fname ps") auto
    with pos have ex: "\<exists>c\<in>set (candidates fname ps). 0 < snd (snd c)" by blast
    from locate_success [OF fr names ex]
    obtain r where "locate fname (Listed ps) = Inr r" by blast
    with False show ?thesis by simp
  qed
next
  assume a: "first_raise fname ps = None \<and>
    (\<forall>c\<in>set (candidates fname ps). fst (snd c) \<noteq> [] \<and> 0 < snd (snd c))"
    and ne: "candidates fname ps \<noteq> []"
  from a have fr: "first_raise fname ps = None"
    and names: "\<forall>c\<in>set (candidates fname ps). fst (snd c) \<noteq> []"
    and pos: "\<forall>c\<in>set (candidates fname ps). 0 < snd (snd c)" by simp_all
  from ne obtain c where "c \<in> set (candidates fname ps)" by (cases "candidates fname ps") auto
  with pos have ex: "\<exists>c\<in>set (candidates fname ps). 0 < snd (snd c)" by blast
  from locate_success [OF fr names ex]
  show "\<exists>r. locate fname (Listed ps) = Inr r" by blast
qed

theorem locate_failures_counterexample:
  "locate ''save_backups''
     (Listed [(''Builder'', Listed [(''world'', Mtime 5)]), (''Sandbox'', Raises PermissionError)])
     = Inl (Unhandled PermissionError) \<and>
   locate ''save_backups''
     (Listed [(''Builder'', Listed [(''world'', Mtime 5)]),
              (''desktop.ini'', Raises NotADirectoryError)])
     = Inl (Unhandled NotADirectoryError)"
  by (simp add: locate_def)

theorem locate_failures_witness:
  "locate ''save_backups'' (Listed [(''Survival'', Raises PermissionError)])
     = Inl (Unhandled PermissionError) \<and>
   locate ''save_backups''
     (Listed [(''Builder'', Listed [(''world'', Mtime 5), (''link'', MtimeRaises FileNotFoundError)])])
     = Inl (Unhandled FileNotFoundError) \<and>
   locate ''save_backups''
     (Listed [(''Sandbox'', Listed [(''save_backups'', MtimeRaises PermissionError)])])
     = Inl NoSavesFound \<and>
   (\<exists>r. locate ''save_backups'' (Listed [(''Builder'', Listed [(''world'', Mtime 5)])]) = Inr r)"
proof -
  let ?F = "''save_backups''"
  let ?p1 = "[(''Survival'', Raises PermissionError :: playstyle_dir)]"
  let ?p2 = "[(''Builder'', Listed [(''world'', Mtime 5), (''link'', MtimeRaises FileNotFoundError)])]"
  let ?p3 = "[(''Sandbox'', Listed [(''save_backups'', MtimeRaises PermissionError)])]"
  let ?p4 = "[(''Builder'', Listed [(''world'', Mtime 5)])]"
  have a: "first_raise ?F ?p1 = Some PermissionError" by simp
  have a2: "first_raise ?F ?p2 = Some FileNotFoundError" by simp
  have b: "first_raise ?F ?p3 = None \<and>
     (\<forall>c\<in>set (candidates ?F ?p3). fst (snd c) \<noteq> [] \<and> 0 < snd (snd c))"
    "candidates ?F ?p3 = []"
    by simp_all
  have c: "first_raise ?F ?p4 = None \<and>
     (\<forall>c\<in>set (candidates ?F ?p4). fst (snd c) \<noteq> [] \<and> 0 < snd (snd c))"
    "candidates ?F ?p4 \<noteq> []"
    by simp_all
  from locate_failures [of ?F PermissionError ?p1 PermissionError] a
  have 1: "locate ?F (Listed ?p1) = Inl (Unhandled PermissionError)" by blast
  from locate_failures [of ?F PermissionError ?p2 FileNotFoundError] a2
  have 2: "locate ?F (Listed ?p2) = Inl (Unhandled FileNotFoundError)" by blast
  from locate_failures [of ?F PermissionError ?p3 PermissionError] b
  have 3: "locate ?F (Listed ?p3) = Inl NoSavesFound" by blast
  from locate_failures [of ?F PermissionError ?p4 PermissionError] c
  have 4: "\<exists>r. locate ?F (Listed ?p4) = Inr r" by blast
  from 1 2 3 4 show ?thesis by blast
qed

section \<open>Runs of the script on concrete folders\<close>

text \<open>The definitions that a concrete run unfolds.\<close>

lemmas eval_defs = main_def locate_def initial_state_def cycle_def eviction_phase_def
  free_num.simps isfile_def lookup_def backup_name_def SUFFIX_SEPARATOR_def SUFFIX_BEGIN_def
  py_str_def digits.simps digit_char_def archive_def listing_def artefact_def truthy_def
  evict.simps evict_once_def
  belongs_def delete_backup_def remove_entry_def parse_number_def rpartition_def
  removeprefix_def removesuffix_def endswith_def py_int_def strip_def
      is_space_def is_digit_def digits_value_def digit_val_def Let_def

text \<open>
  Claim C8 asks that a plain directory copy selected for eviction be removed with all its
  contents.  The script calls \<open>os.rmdir\<close>, which removes empty directories only: with a
  limit of 1 and the copy \<open>alpha_bak0\<close> holding one file, the eviction phase prints its
  line and then stops the run with the unhandled error of a directory that is not empty;
  the copy stays where it is.
\<close>

theorem eviction_of_plain_copy_fails:
  "eviction_phase ''alpha'' 1
     \<lparr>present = True, protected = False,
       entries = [\<lparr>ename = ''alpha_bak0'', emtime = 50, enode = Dir [''map_0_0.bin''],
                   elocked = False\<rparr>]\<rparr> 1 =
   ([[LimitReached ''alpha_bak0'']], Inl (Unhandled DirectoryNotEmpty))"
  by (simp add: eviction_phase_def evict.simps evict_once_def belongs_def delete_backup_def
      lookup_def)

lemma free_num_not_file: "\<not> isfile fs (backup_name s (free_num fs s e n) e)"
proof (induction fs s e n rule: free_num.induct)
  case (1 fs s e n)
  then show ?case by (simp add: free_num.simps [of fs s e n])
qed

text \<open>
  Claim C2 asks that the name chosen for the next backup never be the name of an existing
  entry, a plain directory copy included.  The collision loop tests \<open>os.path.isfile\<close>,
  which is false for a directory, so the name it settles on (\<open>free_num_not_file\<close>: never
  that of a regular file) can be that of an existing copy.  Run without compression on a
  save \<open>alpha\<close>: the first cycle creates \<open>alpha_bak0\<close>; during the sleep a directory
  \<open>alpha_bak1\<close> appears in the backup folder; the second cycle keeps the number 1 and
  \<open>shutil.copytree\<close> fails with \<open>FileExistsError\<close>, unhandled.
\<close>

theorem collision_with_plain_copy:
  "free_num
     \<lparr>present = True, protected = False,
       entries = [\<lparr>ename = ''alpha_bak0'', emtime = 100, enode = Dir [''map_0_0.bin''], elocked = False\<rparr>,
                  \<lparr>ename = ''alpha_bak1'', emtime = 120, enode = Dir [''notes.txt''], elocked = False\<rparr>]\<rparr>
     ''alpha'' [] 1 = 1 \<and>
   main \<lparr>FOLDER_NAME = ''save_backups'', METHOD = None, LIMIT = 0\<rparr>
     (Listed [(''Sandbox'', Listed [(''alpha'', Mtime 100)])])
     (\<lambda>p. Some \<lparr>present = True, protected = False, entries = []\<rparr>)
     [\<lparr>slot = 0, artifact_mtime = 100, save_tree = [''map_0_0.bin''], producer = None,
       save_mtime = Some 100, interrupted = False,
       during_sleep = Some \<lparr>present = True, protected = False,
         entries = [\<lparr>ename = ''alpha_bak0'', emtime = 100, enode = Dir [''map_0_0.bin''], elocked = False\<rparr>,
                    \<lparr>ename = ''alpha_bak1'', emtime = 120, enode = Dir [''notes.txt''], elocked = False\<rparr>]\<rparr>,
       after_sleep = Some 150\<rparr>,
      \<lparr>slot = 2, artifact_mtime = 150, save_tree = [''map_0_0.bin''], producer = None,
       save_mtime = Some 150, interrupted = False, during_sleep = None,
       after_sleep = Some 150\<rparr>]
   = Failed (Unhandled FileExistsError)"
  by (simp add: eval_defs)

section \<open>What a backup cycle does to the rotation state\<close>

lemma archive_Inr:
  assumes "archive cfg ev fs nm = Inr fs'"
  shows "fs' = fs\<lparr>present := True,
                  entries := take (slot ev) (listing fs) @ [artefact cfg ev nm]
                               @ drop (slot ev) (listing fs)\<rparr>"
  using assms by (auto simp: archive_def split: if_splits option.splits)

lemma cycle_Inr:
  assumes "cycle cfg s ev st = Inr st'"
  shows "\<exists>outs fs remaining t.
    eviction_phase s (LIMIT cfg) (folder st) (total_num st) = (outs, Inr (fs, remaining)) \<and>
    save_mtime ev = Some t \<and> last_mod st' = t \<and> total_num st' = remaining + 1 \<and>
    suffix_extension st' = (if \<not> truthy (METHOD cfg) then [] else suffix_extension st) \<and>
    backup_num st' = free_num fs s (suffix_extension st') (backup_num st) + 1 \<and>
    present (folder st') \<and>
    entries (folder st') =
      take (slot ev) (listing fs)
        @ [artefact cfg ev
             (backup_name s (free_num fs s (suffix_extension st') (backup_num st))
                (suffix_extension st'))]
        @ drop (slot ev) (listing fs)"
proof -
  obtain outs r where ph: "eviction_phase s (LIMIT cfg) (folder st) (total_num st) = (outs, r)"
    by (cases "eviction_phase s (LIMIT cfg) (folder st) (total_num st)")
  with assms obtain fs remaining where r: "r = Inr (fs, remaining)"
    by (cases r) (auto simp: cycle_def)
  let ?ext = "if \<not> truthy (METHOD cfg) then [] else suffix_extension st"
  let ?n = "free_num fs s ?ext (backup_num st)"
  from assms ph r obtain fs' where ar: "archive cfg ev fs (backup_name s ?n ?ext) = Inr fs'"
    by (cases "archive cfg ev fs (backup_name s ?n ?ext)") (auto simp: cycle_def Let_def)
  from assms ph r ar obtain t where t: "save_mtime ev = Some t"
    by (cases "save_mtime ev") (auto simp: cycle_def Let_def)
  from assms ph r ar t have st': "st' = st\<lparr>folder := fs', total_num := remaining + 1,
      backup_num := ?n + 1, suffix_extension := ?ext, last_mod := t,
      printed := printed st @ concat outs @ [Creating (backup_name s ?n ?ext), Done]\<rparr>"
    by (simp add: cycle_def Let_def)
  have "eviction_phase s (LIMIT cfg) (folder st) (total_num st) = (outs, Inr (fs, remaining))"
    using ph r by simp
  moreover have "last_mod st' = t" "total_num st' = remaining + 1"
    "suffix_extension st' = ?ext" using st' by simp_all
  moreover have "backup_num st' = free_num fs s (suffix_extension st') (backup_num st) + 1"
    using st' by simp
  moreover have "present (folder st')" using st' archive_Inr [OF ar] by simp
  moreover have "entries (folder st') =
      take (slot ev) (listing fs)
        @ [artefact cfg ev
             (backup_name s (free_num fs s (suffix_extension st') (backup_num st))
                (suffix_extension st'))]
        @ drop (slot ev) (listing fs)"
    using st' archive_Inr [OF ar] by simp
  ultimately show ?thesis using t by blast
qed

text \<open>
  When a cycle succeeds: the eviction phase ends normally, the backup folder exists or
  the artefact is a plain copy, no entry has the chosen name, the writer does not fail
  and the save is still there.
\<close>

lemma cycle_succeeds:
  assumes "eviction_phase s (LIMIT cfg) (folder st) (total_num st) = (outs, Inr (fs, remaining))"
    and "present fs \<or> \<not> truthy (METHOD cfg)"
    and "lookup fs (backup_name s
           (free_num fs s (if \<not> truthy (METHOD cfg) then [] else suffix_extension st)
              (backup_num st))
           (if \<not> truthy (METHOD cfg) then [] else suffix_extension st)) = None"
    and "producer ev = None" and "save_mtime ev = Some t"
  shows "\<exists>st'. cycle cfg s ev st = Inr st'"
  using assms by (auto simp: cycle_def archive_def Let_def)

lemma free_num_free: "\<not> isfile fs (backup_name s n e) \<Longrightarrow> free_num fs s e n = n"
  by (simp add: free_num.simps [of fs s e n])

text \<open>
  Claim C7, as the code has it.  After a successful archiving step \<open>last_mod\<close> is the
  modification time of the save directory, read just after the artefact was written, not
  the time of the artefact; \<open>total_num\<close> is one more than the count the eviction phase
  left, and \<open>backup_num\<close> is one more than the number in the name of the artefact.  The
  artefact is one more entry of the backup folder, at the place in the listing that the
  file system gives it, with its own modification time.
\<close>

theorem archiving_updates_state:
  assumes "cycle cfg s ev st = Inr st'"
  shows "save_mtime ev = Some (last_mod st') \<and>
    (\<exists>outs fs n.
       eviction_phase s (LIMIT cfg) (folder st) (total_num st) = (outs, Inr (fs, total_num st' - 1)) \<and>
       n = free_num fs s (suffix_extension st') (backup_num st) \<and>
       backup_num st' = n + 1 \<and>
       entries (folder st') =
         take (slot ev) (listing fs)
           @ [\<lparr>ename = backup_name s n (suffix_extension st'), emtime = artifact_mtime ev,
                enode = (if truthy (METHOD cfg) then File else Dir (save_tree ev)),
                elocked = False\<rparr>]
           @ drop (slot ev) (listing fs))"
proof -
  from cycle_Inr [OF assms] obtain outs fs remaining t where
    ph: "eviction_phase s (LIMIT cfg) (folder st) (total_num st) = (outs, Inr (fs, remaining))"
    and t: "save_mtime ev = Some t" "last_mod st' = t"
    and tn: "total_num st' = remaining + 1"
    and bn: "backup_num st' = free_num fs s (suffix_extension st') (backup_num st) + 1"
    and en: "entries (folder st') =
      take (slot ev) (listing fs)
        @ [artefact cfg ev
             (backup_name s (free_num fs s (suffix_extension st') (backup_num st))
                (suffix_extension st'))]
        @ drop (slot ev) (listing fs)"
    by blast
  have "save_mtime ev = Some (last_mod st')" using t by simp
  moreover have "eviction_phase s (LIMIT cfg) (folder st) (total_num st) =
      (outs, Inr (fs, total_num st' - 1))" using ph tn by simp
  moreover have "entries (folder st') =
         take (slot ev) (listing fs)
           @ [\<lparr>ename = backup_name s (free_num fs s (suffix_extension st') (backup_num st))
                  (suffix_extension st'), emtime = artifact_mtime ev,
                enode = (if truthy (METHOD cfg) then File else Dir (save_tree ev)),
                elocked = False\<rparr>]
           @ drop (slot ev) (listing fs)" using en by (simp add: artefact_def)
  ultimately show ?thesis using bn by blast
qed

theorem last_mod_counterexample:
  "cycle \<lparr>FOLDER_NAME = ''save_backups'', METHOD = Some 8, LIMIT = 0\<rparr> ''alpha''
     \<lparr>slot = 0, artifact_mtime = 200, save_tree = [''map_0_0.bin''], producer = None,
       save_mtime = Some 100, interrupted = False, during_sleep = None,
       after_sleep = Some 100\<rparr>
     \<lparr>folder = \<lparr>present = True, protected = False, entries = []\<rparr>,
       total_num = 0, backup_num = 0, suffix_extension = ''.zip'', last_mod = 0,
       current_mod = 1, printed = []\<rparr>
   = Inr \<lparr>folder = \<lparr>present = True, protected = False,
         entries = [\<lparr>ename = ''alpha_bak0.zip'', emtime = 200, enode = File, elocked = False\<rparr>]\<rparr>,
       total_num = 1, backup_num = 1, suffix_extension = ''.zip'', last_mod = 100,
       current_mod = 1, printed = [Creating ''alpha_bak0.zip'', Done]\<rparr>"
  by (simp add: eval_defs)

theorem archiving_updates_state_witness:
  "cycle \<lparr>FOLDER_NAME = ''save_backups'', METHOD = None, LIMIT = 1\<rparr> ''alpha''
     \<lparr>slot = 0, artifact_mtime = 100, save_tree = [''map_0_0.bin''], producer = None,
       save_mtime = Some 120, interrupted = False, during_sleep = None,
       after_sleep = Some 120\<rparr>
     \<lparr>folder = \<lparr>present = True, protected = False, entries = []\<rparr>,
       total_num = 1, backup_num = 1, suffix_extension = [], last_mod = 100,
       current_mod = 110, printed = []\<rparr>
   = Inr \<lparr>folder = \<lparr>present = True, protected = False,
         entries = [\<lparr>ename = ''alpha_bak1'', emtime = 100, enode = Dir [''map_0_0.bin''],
                     elocked = False\<rparr>]\<rparr>,
       total_num = 1, backup_num = 2, suffix_extension = [], last_mod = 120,
       current_mod = 110, printed = [LimitReached [], Creating ''alpha_bak1'', Done]\<rparr> \<and>
   save_mtime \<lparr>slot = 0, artifact_mtime = 100, save_tree = [''map_0_0.bin''], producer = None,
       save_mtime = Some 120, interrupted = False, during_sleep = None,
       after_sleep = Some 120\<rparr> = Some (last_mod \<lparr>folder = \<lparr>present = True, protected = False,
         entries = [\<lparr>ename = ''alpha_bak1'', emtime = 100, enode = Dir [''map_0_0.bin''],
                     elocked = False\<rparr>]\<rparr>,
       total_num = 1, backup_num = 2, suffix_extension = [], last_mod = 120,
       current_mod = 110, printed = [LimitReached [], Creating ''alpha_bak1'', Done]\<rparr>)"
proof -
  have h: "cycle \<lparr>FOLDER_NAME = ''save_backups'', METHOD = None, LIMIT = 1\<rparr> ''alpha''
     \<lparr>slot = 0, artifact_mtime = 100, save_tree = [''map_0_0.bin''], producer = None,
       save_mtime = Some 120, interrupted = False, during_sleep = None,
       after_sleep = Some 120\<rparr>
     \<lparr>folder = \<lparr>present = True, protected = False, entries = []\<rparr>,
       total_num = 1, backup_num = 1, suffix_extension = [], last_mod = 100,
       current_mod = 110, printed = []\<rparr>
   = Inr \<lparr>folder = \<lparr>present = True, protected = False,
         entries = [\<lparr>ename = ''alpha_bak1'', emtime = 100, enode = Dir [''map_0_0.bin''],
                     elocked = False\<rparr>]\<rparr>,
       total_num = 1, backup_num = 2, suffix_extension = [], last_mod = 120,
       current_mod = 110, printed = [LimitReached [], Creating ''alpha_bak1'', Done]\<rparr>"
    by (simp add: eval_defs)
  from archiving_updates_state [OF h] h show ?thesis by blast
qed

lemma initial_state_scan:
  "initial_state fs0 s = Inr st0 \<Longrightarrow>
     numbering_scan s (map ename (entries fs0)) (0, 0) = Inr (backup_num st0, total_num st0)"
  by (auto simp: initial_state_def split: if_splits sum.splits)

lemma backup_loop_carry:
  assumes "current_mod st \<noteq> last_mod st" and "cycle cfg s ev st = Inr st'"
    and "\<not> interrupted ev" and "after_sleep ev = Some t"
  shows "\<exists>st''. backup_loop cfg s (ev # evs) st = backup_loop cfg s evs st'' \<and>
           backup_num st'' = backup_num st' \<and> total_num st'' = total_num st' \<and>
           folder st'' = (case during_sleep ev of None \<Rightarrow> folder st' | Some f \<Rightarrow> f)"
proof -
  let ?st = "st'\<lparr>current_mod := t,
      folder := (case during_sleep ev of None \<Rightarrow> folder st' | Some f \<Rightarrow> f)\<rparr>"
  have "backup_loop cfg s (ev # evs) st = backup_loop cfg s evs ?st"
    using assms by simp
  moreover have "backup_num ?st = backup_num st'" "total_num ?st = total_num st'"
    "folder ?st = (case during_sleep ev of None \<Rightarrow> folder st' | Some f \<Rightarrow> f)" by simp_all
  ultimately show ?thesis by blast
qed

text \<open>
  Claim C6, as the code has it.  The folder is scanned for the sequence number and the
  count once, when the loop's first state is made.  A cycle takes both from the state the
  previous cycle left: the count it passes to the eviction phase is the stored one, the
  stored number is advanced only past names of existing regular files, and both are
  stored back incremented.  The loop hands them to the next cycle as they are, whatever
  became of the folder during the sleep.
\<close>

theorem numbers_kept_in_memory:
  "(initial_state fs0 s = Inr st0 \<longrightarrow>
      numbering_scan s (map ename (entries fs0)) (0, 0) = Inr (backup_num st0, total_num st0)) \<and>
   (cycle cfg s ev st = Inr st' \<longrightarrow>
      (\<exists>outs fs.
         eviction_phase s (LIMIT cfg) (folder st) (total_num st) =
           (outs, Inr (fs, total_num st' - 1)) \<and>
         backup_num st' = free_num fs s (suffix_extension st') (backup_num st) + 1 \<and>
         (\<not> isfile fs (backup_name s (backup_num st) (suffix_extension st')) \<longrightarrow>
            backup_num st' = backup_num st + 1)) \<and>
      (current_mod st \<noteq> last_mod st \<and> \<not> interrupted ev \<and> after_sleep ev = Some t \<longrightarrow>
         (\<exists>st''. backup_loop cfg s (ev # evs) st = backup_loop cfg s evs st'' \<and>
            backup_num st'' = backup_num st' \<and> total_num st'' = total_num st' \<and>
            folder st'' = (case during_sleep ev of None \<Rightarrow> folder st' | Some f \<Rightarrow> f))))"
proof (intro conjI impI)
  assume "initial_state fs0 s = Inr st0"
  then show "numbering_scan s (map ename (entries fs0)) (0, 0) = Inr (backup_num st0, total_num st0)"
    by (rule initial_state_scan)
next
  assume c: "cycle cfg s ev st = Inr st'"
  from cycle_Inr [OF c] obtain outs fs remaining where
    ph: "eviction_phase s (LIMIT cfg) (folder st) (total_num st) = (outs, Inr (fs, remaining))"
    and tn: "total_num st' = remaining + 1"
    and bn: "backup_num st' = free_num fs s (suffix_extension st') (backup_num st) + 1"
    by blast
  have "\<not> isfile fs (backup_name s (backup_num st) (suffix_extension st')) \<longrightarrow>
            backup_num st' = backup_num st + 1"
    using bn by (simp add: free_num_free)
  with ph tn bn show "\<exists>outs fs.
         eviction_phase s (LIMIT cfg) (folder st) (total_num st) =
           (outs, Inr (fs, total_num st' - 1)) \<and>
         backup_num st' = free_num fs s (suffix_extension st') (backup_num st) + 1 \<and>
         (\<not> isfile fs (backup_name s (backup_num st) (suffix_extension st')) \<longrightarrow>
            backup_num st' = backup_num st + 1)" by auto
next
  assume c: "cycle cfg s ev st = Inr st'"
    and a: "current_mod st \<noteq> last_mod st \<and> \<not> interrupted ev \<and> after_sleep ev = Some t"
  from a have a1: "current_mod st \<noteq> last_mod st" and a2: "\<not> interrupted ev"
    and a3: "after_sleep ev = Some t" by simp_all
  show "\<exists>st''. backup_loop cfg s (ev # evs) st = backup_loop cfg s evs st'' \<and>
            backup_num st'' = backup_num st' \<and> total_num st'' = total_num st' \<and>
            folder st'' = (case during_sleep ev of None \<Rightarrow> folder st' | Some f \<Rightarrow> f)"
    by (rule backup_loop_carry [OF a1 c a2 a3])
qed

theorem rescan_counterexample:
  "main \<lparr>FOLDER_NAME = ''save_backups'', METHOD = Some 8, LIMIT = 0\<rparr>
     (Listed [(''Sandbox'', Listed [(''alpha'', Mtime 100)])])
     (\<lambda>p. Some \<lparr>present = True, protected = False, entries = []\<rparr>)
     [\<lparr>slot = 0, artifact_mtime = 200, save_tree = [''map_0_0.bin''], producer = None,
       save_mtime = Some 100, interrupted = False,
       during_sleep = Some \<lparr>present = True, protected = False,
         entries = [\<lparr>ename = ''alpha_bak0.zip'', emtime = 200, enode = File, elocked = False\<rparr>,
                    \<lparr>ename = ''alpha_bak5.zip'', emtime = 210, enode = File, elocked = False\<rparr>]\<rparr>,
       after_sleep = Some 150\<rparr>,
      \<lparr>slot = 2, artifact_mtime = 300, save_tree = [''map_0_0.bin''], producer = None,
       save_mtime = Some 150, interrupted = False, during_sleep = None,
       after_sleep = Some 150\<rparr>]
   = Finished
      \<lparr>folder = \<lparr>present = True, protected = False,
         entries = [\<lparr>ename = ''alpha_bak0.zip'', emtime = 200, enode = File, elocked = False\<rparr>,
                    \<lparr>ename = ''alpha_bak5.zip'', emtime = 210, enode = File, elocked = False\<rparr>,
                    \<lparr>ename = ''alpha_bak1.zip'', emtime = 300, enode = File, elocked = False\<rparr>]\<rparr>,
       total_num = 2, backup_num = 2, suffix_extension = ''.zip'', last_mod = 150,
       current_mod = 150,
       printed = [Creating ''alpha_bak0.zip'', Done, Creating ''alpha_bak1.zip'', Done]\<rparr> \<and>
   numbering_scan ''alpha'' [''alpha_bak0.zip'', ''alpha_bak5.zip''] (0, 0) = Inr (6, 2)"
  by (simp add: eval_defs)

theorem numbers_kept_in_memory_witness:
  "numbering_scan ''alpha'' (map ename (entries \<lparr>present = True, protected = False,
       entries = [\<lparr>ename = ''alpha_bak0.zip'', emtime = 90, enode = File, elocked = False\<rparr>,
                  \<lparr>ename = ''alpha_bak3.zip'', emtime = 95, enode = File, elocked = False\<rparr>]\<rparr>)) (0, 0) = Inr (4, 2) \<and>
   (\<exists>st''. backup_loop \<lparr>FOLDER_NAME = ''save_backups'', METHOD = Some 8, LIMIT = 0\<rparr> ''alpha'' [\<lparr>slot = 2, artifact_mtime = 200, save_tree = [''map_0_0.bin''], producer = None,
       save_mtime = Some 100, interrupted = False, during_sleep = None,
       after_sleep = Some 150\<rparr>] \<lparr>folder = \<lparr>present = True, protected = False,
       entries = [\<lparr>ename = ''alpha_bak0.zip'', emtime = 90, enode = File, elocked = False\<rparr>,
                  \<lparr>ename = ''alpha_bak3.zip'', emtime = 95, enode = File, elocked = False\<rparr>]\<rparr>,
       total_num = 2, backup_num = 4, suffix_extension = ''.zip'', last_mod = 0,
       current_mod = 1, printed = []\<rparr> = backup_loop \<lparr>FOLDER_NAME = ''save_backups'', METHOD = Some 8, LIMIT = 0\<rparr> ''alpha'' [] st'' \<and>
      backup_num st'' = 5 \<and> total_num st'' = 3)"
proof -
  let ?fs0 = "\<lparr>present = True, protected = False,
       entries = [\<lparr>ename = ''alpha_bak0.zip'', emtime = 90, enode = File, elocked = False\<rparr>,
                  \<lparr>ename = ''alpha_bak3.zip'', emtime = 95, enode = File, elocked = False\<rparr>]\<rparr>"
  let ?st0 = "\<lparr>folder = \<lparr>present = True, protected = False,
       entries = [\<lparr>ename = ''alpha_bak0.zip'', emtime = 90, enode = File, elocked = False\<rparr>,
                  \<lparr>ename = ''alpha_bak3.zip'', emtime = 95, enode = File, elocked = False\<rparr>]\<rparr>,
       total_num = 2, backup_num = 4, suffix_extension = ''.zip'', last_mod = 0,
       current_mod = 1, printed = []\<rparr>"
  let ?st1 = "\<lparr>folder = \<lparr>present = True, protected = False,
       entries = [\<lparr>ename = ''alpha_bak0.zip'', emtime = 90, enode = File, elocked = False\<rparr>,
                  \<lparr>ename = ''alpha_bak3.zip'', emtime = 95, enode = File, elocked = False\<rparr>,
                  \<lparr>ename = ''alpha_bak4.zip'', emtime = 200, enode = File, elocked = False\<rparr>]\<rparr>,
       total_num = 3, backup_num = 5, suffix_extension = ''.zip'', last_mod = 100,
       current_mod = 1, printed = [Creating ''alpha_bak4.zip'', Done]\<rparr>"
  let ?cfg = "\<lparr>FOLDER_NAME = ''save_backups'', METHOD = Some 8, LIMIT = 0\<rparr>"
  let ?ev = "\<lparr>slot = 2, artifact_mtime = 200, save_tree = [''map_0_0.bin''], producer = None,
       save_mtime = Some 100, interrupted = False, during_sleep = None,
       after_sleep = Some 150\<rparr>"
  have h1: "initial_state ?fs0 ''alpha'' = Inr ?st0" by (simp add: eval_defs)
  have h2: "cycle ?cfg ''alpha'' ?ev ?st0 = Inr ?st1" by (simp add: eval_defs)
  have h3: "current_mod ?st0 \<noteq> last_mod ?st0 \<and> \<not> interrupted ?ev \<and> after_sleep ?ev = Some 150"
    by simp
  from numbers_kept_in_memory [of ?fs0 "''alpha''" ?st0 ?cfg ?ev ?st0 ?st1 150 "[]"] h1 h2 h3
  have "numbering_scan ''alpha'' (map ename (entries ?fs0)) (0, 0) =
      Inr (backup_num ?st0, total_num ?st0)"
    and "\<exists>st''. backup_loop ?cfg ''alpha'' [?ev] ?st0 = backup_loop ?cfg ''alpha'' [] st'' \<and>
            backup_num st'' = backup_num ?st1 \<and> total_num st'' = total_num ?st1 \<and>
            folder st'' = (case during_sleep ?ev of None \<Rightarrow> folder ?st1 | Some f \<Rightarrow> f)"
    by blast+
  then obtain st'' where
    sc: "numbering_scan ''alpha'' (map ename (entries ?fs0)) (0, 0) =
      Inr (backup_num ?st0, total_num ?st0)"
    and lp: "backup_loop ?cfg ''alpha'' [?ev] ?st0 = backup_loop ?cfg ''alpha'' [] st''"
    and nums: "backup_num st'' = backup_num ?st1" "total_num st'' = total_num ?st1"
    by blast
  from nums have "backup_num st'' = 5" "total_num st'' = 3" by simp_all
  with lp have "\<exists>st''. backup_loop ?cfg ''alpha'' [?ev] ?st0 = backup_loop ?cfg ''alpha'' [] st'' \<and>
      backup_num st'' = 5 \<and> total_num st'' = 3" by blast
  moreover from sc have "numbering_scan ''alpha'' (map ename (entries ?fs0)) (0, 0) = Inr (4, 2)"
    by (simp del: numbering_scan.simps)
  ultimately show ?thesis by blast
qed

end
